theory Spec2Isabelle
  imports Main
begin

section \<open>Texts and lines\<close>

text \<open>
  Texts are \<open>string\<close>s. Python's \<open>str.splitlines(keepends=False)\<close> breaks a text at
  LF, CR, CR LF, VT, FF, FS, GS, RS and NEL (the line boundaries that fit in a \<open>char\<close>;
  U+2028 and U+2029 are outside the type) and yields no final empty line.
\<close>

definition LF :: char where
  "LF = CHR 0x0A"

definition CR :: char where
  "CR = CHR 0x0D"

definition is_linebreak :: "char \<Rightarrow> bool" where
  "is_linebreak c \<longleftrightarrow>
     c = CHR 0x0A \<or> c = CHR 0x0B \<or> c = CHR 0x0C \<or> c = CHR 0x0D \<or>
     c = CHR 0x1C \<or> c = CHR 0x1D \<or> c = CHR 0x1E \<or> c = CHR 0x85"

fun splitlines_from :: "string \<Rightarrow> string \<Rightarrow> string list" where
  "splitlines_from cur [] = (if cur = [] then [] else [cur])"
| "splitlines_from cur [c] = (if is_linebreak c then [cur] else [cur @ [c]])"
| "splitlines_from cur (c # d # cs) =
     (if c = CR \<and> d = LF then cur # splitlines_from [] cs
      else if is_linebreak c then cur # splitlines_from [] (d # cs)
      else splitlines_from (cur @ [c]) (d # cs))"

definition splitlines :: "string \<Rightarrow> string list" where
  "splitlines text = splitlines_from [] text"

definition endswith_lf :: "string \<Rightarrow> bool" where
  "endswith_lf text \<longleftrightarrow> text \<noteq> [] \<and> last text = LF"

section \<open>The host editor\<close>

text \<open>
  Modelled from the spec: the host document API of section 6 (text, line count, line
  length and line text queries, replace, insert and delete by position, line states,
  carets, the change notification). The editor object \<open>ed\<close> belongs to the host
  application; the plugin only calls it. It is modelled as an in-memory document: a
  sequence of lines, each with its line-state tag, the carets, and the list of mutating
  calls received so far. The spec names the calls; what a call does at a position is
  what the host documents. The host breaks lines at LF: a text that ends with LF has a
  final empty line, and a document always has at least one line. A query on a row that
  does not exist answers \<open>-1\<close> for the length and \<open>None\<close> for the text.
\<close>

datatype linestate = LINESTATE_NORMAL | LINESTATE_CHANGED | LINESTATE_ADDED | LINESTATE_SAVED

type_synonym line = "string \<times> linestate"

type_synonym caret = "int \<times> int \<times> int \<times> int"

datatype call =
    CALL_replace int int int int string
  | CALL_insert int int string
  | CALL_delete int int int int
  | CALL_set_line_state int linestate
  | CALL_set_caret int int
  | CALL_action_update

record editor =
  ed_lines :: "line list"
  ed_carets :: "caret list"
  ed_calls :: "call list"

fun split_lf :: "string \<Rightarrow> string list" where
  "split_lf [] = [[]]"
| "split_lf (c # cs) =
     (if c = LF then [] # split_lf cs
      else (case split_lf cs of [] \<Rightarrow> [[c]] | l # ls \<Rightarrow> (c # l) # ls))"

fun join_lf :: "string list \<Rightarrow> string" where
  "join_lf [] = []"
| "join_lf [l] = l"
| "join_lf (l # ls) = l @ LF # join_lf ls"

subsection \<open>Queries\<close>

definition get_text_all :: "editor \<Rightarrow> string" where
  "get_text_all e = join_lf (map fst (ed_lines e))"

definition get_line_count :: "editor \<Rightarrow> int" where
  "get_line_count e = int (length (ed_lines e))"

definition get_line_len :: "editor \<Rightarrow> int \<Rightarrow> int" where
  "get_line_len e y =
     (if 0 \<le> y \<and> y < int (length (ed_lines e))
      then int (length (fst (ed_lines e ! nat y))) else - 1)"

definition get_text_line :: "editor \<Rightarrow> int \<Rightarrow> string option" where
  "get_text_line e y =
     (if 0 \<le> y \<and> y < int (length (ed_lines e))
      then Some (fst (ed_lines e ! nat y)) else None)"

definition get_carets :: "editor \<Rightarrow> caret list" where
  "get_carets e = ed_carets e"

definition get_line_states :: "editor \<Rightarrow> linestate list" where
  "get_line_states e = map snd (ed_lines e)"

subsection \<open>Editing the lines\<close>

text \<open>
  \<open>delete\<close> removes the text between two positions, \<open>insert\<close> puts a text, which may
  hold several lines, at a position, and \<open>replace\<close> is the delete followed by the
  insert. A row past the last line stands for the end of the text: a delete up to such
  a row deletes to the end, an insert at such a row appends. The reconciler never passes
  a column past the end of a line; the model clamps one.

  The host keeps the line states as it edits. Section 6 gives no rule for them; the
  model takes the words of section 4.1, unchanged lines retain their prior state and
  changed or inserted lines are tagged as changed: a line that an edit leaves whole keeps
  its tag, and every other line that the edit leaves behind, a line made of inserted
  text or one that gains or loses a part, is tagged \<open>LINESTATE_CHANGED\<close>. The texts,
  the calls received and the states written by \<open>set_line_state\<close> do not depend on this
  rule.
\<close>

definition locate :: "line list \<Rightarrow> int \<Rightarrow> int \<Rightarrow> nat \<times> nat" where
  "locate L x y =
     (if int (length L) \<le> y then (length L - 1, length (fst (last L)))
      else (nat y, min (nat x) (length (fst (L ! nat y)))))"

definition lines_delete :: "int \<Rightarrow> int \<Rightarrow> int \<Rightarrow> int \<Rightarrow> line list \<Rightarrow> line list" where
  "lines_delete x1 y1 x2 y2 L =
     (if L = [] \<or> y1 < 0 \<or> y2 < 0 \<or> int (length L) \<le> y1 then L
      else
        (case locate L x1 y1 of (a, xa) \<Rightarrow>
         case locate L x2 y2 of (b, xb) \<Rightarrow>
           if b < a \<or> (b = a \<and> xb \<le> xa) then L
           else
             (case L ! a of (ta, sa) \<Rightarrow>
              case L ! b of (tb, sb) \<Rightarrow>
                take a L
                @ [(take xa ta @ drop xb tb,
                    if xa = 0 \<and> xb = 0 then sb
                    else if xa = length ta \<and> xb = length tb then sa
                    else LINESTATE_CHANGED)]
                @ drop (Suc b) L)))"

definition inserted :: "string list \<Rightarrow> line list" where
  "inserted ps = map (\<lambda>p. (p, LINESTATE_CHANGED)) ps"

definition lines_insert :: "int \<Rightarrow> int \<Rightarrow> string \<Rightarrow> line list \<Rightarrow> line list" where
  "lines_insert x y text L =
     (if L = [] \<or> y < 0 \<or> text = [] then L
      else
        (case locate L x y of (a, xa) \<Rightarrow>
         case L ! a of (t, s) \<Rightarrow>
           take a L
           @ (case split_lf text of
                [] \<Rightarrow> [(t, s)]
              | [p] \<Rightarrow> [(take xa t @ p @ drop xa t, LINESTATE_CHANGED)]
              | p # q # qs \<Rightarrow>
                  if xa = 0
                  then inserted (p # butlast (q # qs))
                       @ [(last (q # qs) @ t, if last (q # qs) = [] then s else LINESTATE_CHANGED)]
                  else (take xa t @ p, if p = [] \<and> drop xa t = [] then s else LINESTATE_CHANGED)
                       # inserted (butlast (q # qs))
                       @ [(last (q # qs) @ drop xa t, LINESTATE_CHANGED)])
           @ drop (Suc a) L))"

definition lines_replace :: "int \<Rightarrow> int \<Rightarrow> int \<Rightarrow> int \<Rightarrow> string \<Rightarrow> line list \<Rightarrow> line list" where
  "lines_replace x1 y1 x2 y2 text L = lines_insert x1 y1 text (lines_delete x1 y1 x2 y2 L)"

definition lines_set_state :: "int \<Rightarrow> linestate \<Rightarrow> line list \<Rightarrow> line list" where
  "lines_set_state i s L =
     (if 0 \<le> i \<and> i < int (length L) then L[nat i := (fst (L ! nat i), s)] else L)"

subsection \<open>Mutating calls\<close>

definition ed_replace :: "int \<Rightarrow> int \<Rightarrow> int \<Rightarrow> int \<Rightarrow> string \<Rightarrow> editor \<Rightarrow> editor" where
  "ed_replace x1 y1 x2 y2 text e =
     e\<lparr>ed_lines := lines_replace x1 y1 x2 y2 text (ed_lines e),
       ed_calls := ed_calls e @ [CALL_replace x1 y1 x2 y2 text]\<rparr>"

definition ed_insert :: "int \<Rightarrow> int \<Rightarrow> string \<Rightarrow> editor \<Rightarrow> editor" where
  "ed_insert x y text e =
     e\<lparr>ed_lines := lines_insert x y text (ed_lines e),
       ed_calls := ed_calls e @ [CALL_insert x y text]\<rparr>"

definition ed_delete :: "int \<Rightarrow> int \<Rightarrow> int \<Rightarrow> int \<Rightarrow> editor \<Rightarrow> editor" where
  "ed_delete x1 y1 x2 y2 e =
     e\<lparr>ed_lines := lines_delete x1 y1 x2 y2 (ed_lines e),
       ed_calls := ed_calls e @ [CALL_delete x1 y1 x2 y2]\<rparr>"

definition ed_set_line_state :: "int \<Rightarrow> linestate \<Rightarrow> editor \<Rightarrow> editor" where
  "ed_set_line_state i s e =
     e\<lparr>ed_lines := lines_set_state i s (ed_lines e),
       ed_calls := ed_calls e @ [CALL_set_line_state i s]\<rparr>"

text \<open>\<open>set_caret(x, y)\<close> leaves a single caret without selection.\<close>

definition ed_set_caret :: "int \<Rightarrow> int \<Rightarrow> editor \<Rightarrow> editor" where
  "ed_set_caret x y e =
     e\<lparr>ed_carets := [(x, y, - 1, - 1)],
       ed_calls := ed_calls e @ [CALL_set_caret x y]\<rparr>"

definition ed_action_update :: "editor \<Rightarrow> editor" where
  "ed_action_update e = e\<lparr>ed_calls := ed_calls e @ [CALL_action_update]\<rparr>"

section \<open>The reconciler\<close>

text \<open>
  The two exceptions the function can raise: \<open>IndexError\<close> from \<open>new_lines[idx]\<close>
  when an opcode names a line that the new text does not have, \<open>TypeError\<close> from
  adding the line feed to \<open>last_line_text\<close> when the host has no last line to return.
  The \<open>print\<close> calls write to the console only and are left out.
\<close>

datatype error = IndexError | TypeError

datatype tag = Tag_equal | Tag_replace | Tag_delete | Tag_insert

text \<open>
  An opcode \<open>(tag, i1, i2, j1, j2)\<close> of \<open>difflib.SequenceMatcher.get_opcodes\<close>; the
  library returns indices that are never negative.
\<close>

type_synonym opcode = "tag \<times> nat \<times> nat \<times> nat \<times> nat"

text \<open>The loop of the equal-line-count path that writes the line states.\<close>

definition restore_states :: "string list \<Rightarrow> string list \<Rightarrow> linestate list \<Rightarrow> editor \<Rightarrow> editor" where
  "restore_states old_lines new_lines old_states e =
     fold (\<lambda>i e.
             if i < length old_lines \<and> old_lines ! i = new_lines ! i
             then ed_set_line_state (int i) (old_states ! i) e
             else ed_set_line_state (int i) LINESTATE_CHANGED e)
          [0..<length new_lines] e"

text \<open>The clamping of the saved caret to the document as it is after the edits.\<close>

definition clamp_caret :: "editor \<Rightarrow> int \<Rightarrow> int \<Rightarrow> int \<times> int" where
  "clamp_caret e caret_x caret_y =
     (let new_line_count = get_line_count e;
          caret_y = (if caret_y \<ge> new_line_count then new_line_count - 1 else caret_y);
          new_line_len = get_line_len e caret_y;
          caret_x = (if caret_x > new_line_len then new_line_len else caret_x)
      in (caret_x, caret_y))"

definition restore_caret :: "caret list \<Rightarrow> editor \<Rightarrow> editor" where
  "restore_caret carets e =
     (case carets of
        [] \<Rightarrow> e
      | (caret_x, caret_y, _) # _ \<Rightarrow>
          (case clamp_caret e caret_x caret_y of (x, y) \<Rightarrow> ed_set_caret x y e))"

definition fast_path :: "string list \<Rightarrow> string list \<Rightarrow> string \<Rightarrow> editor \<Rightarrow> editor" where
  "fast_path old_lines new_lines new_text e =
     (let old_states = get_line_states e;
          carets = get_carets e;
          line_count = get_line_count e;
          last_line_len = get_line_len e (line_count - 1);
          e1 = ed_replace 0 0 last_line_len (line_count - 1) new_text e;
          e2 = (if old_states \<noteq> [] \<and> length old_states \<ge> length old_lines
                then restore_states old_lines new_lines old_states e1 else e1);
          e3 = restore_caret carets e2
      in ed_action_update e3)"

fun delete_lines :: "nat \<Rightarrow> int \<Rightarrow> editor \<Rightarrow> editor" where
  "delete_lines 0 adj_i1 e = e"
| "delete_lines (Suc n) adj_i1 e = delete_lines n adj_i1 (ed_delete 0 adj_i1 0 (adj_i1 + 1) e)"

fun insert_lines :: "string list \<Rightarrow> nat list \<Rightarrow> int \<Rightarrow> editor \<Rightarrow> error + editor" where
  "insert_lines new_lines [] adj_i1 e = Inr e"
| "insert_lines new_lines (idx # idxs) adj_i1 e =
     (if idx < length new_lines
      then insert_lines new_lines idxs (adj_i1 + 1)
             (ed_insert 0 adj_i1 (new_lines ! idx @ [LF]) e)
      else Inl IndexError)"

fun apply_opcodes :: "string list \<Rightarrow> opcode list \<Rightarrow> int \<Rightarrow> editor \<Rightarrow> error + editor" where
  "apply_opcodes new_lines [] offset e = Inr e"
| "apply_opcodes new_lines ((Tag_equal, i1, i2, j1, j2) # ops) offset e =
     apply_opcodes new_lines ops offset e"
| "apply_opcodes new_lines ((Tag_replace, i1, i2, j1, j2) # ops) offset e =
     (case insert_lines new_lines [j1..<j2] (int i1 + offset)
             (delete_lines (i2 - i1) (int i1 + offset) e) of
        Inl err \<Rightarrow> Inl err
      | Inr e' \<Rightarrow>
          apply_opcodes new_lines ops (offset + ((int j2 - int j1) - (int i2 - int i1))) e')"
| "apply_opcodes new_lines ((Tag_delete, i1, i2, j1, j2) # ops) offset e =
     apply_opcodes new_lines ops (offset - (int i2 - int i1))
       (delete_lines (i2 - i1) (int i1 + offset) e)"
| "apply_opcodes new_lines ((Tag_insert, i1, i2, j1, j2) # ops) offset e =
     (case insert_lines new_lines [j1..<j2] (int i1 + offset) e of
        Inl err \<Rightarrow> Inl err
      | Inr e' \<Rightarrow> apply_opcodes new_lines ops (offset + (int j2 - int j1)) e')"

definition ensure_last_newline :: "string \<Rightarrow> editor \<Rightarrow> error + editor" where
  "ensure_last_newline new_text e =
     (if endswith_lf new_text then
        (let last_line_idx = get_line_count e - 1 in
         case get_text_line e last_line_idx of
           None \<Rightarrow> Inl TypeError
         | Some last_line_text \<Rightarrow>
             Inr (ed_replace 0 last_line_idx (get_line_len e last_line_idx) last_line_idx
                    (last_line_text @ [LF]) e))
      else Inr e)"

definition slow_path :: "opcode list \<Rightarrow> string list \<Rightarrow> string \<Rightarrow> editor \<Rightarrow> error + editor" where
  "slow_path opcodes new_lines new_text e =
     (let carets = get_carets e in
      case apply_opcodes new_lines opcodes 0 e of
        Inl err \<Rightarrow> Inl err
      | Inr e1 \<Rightarrow>
          (case ensure_last_newline new_text e1 of
             Inl err \<Rightarrow> Inl err
           | Inr e2 \<Rightarrow> Inr (ed_action_update (restore_caret carets e2))))"

text \<open>
  \<open>_apply_changes_preserving_states\<close>. The argument \<open>opcodes\<close> is the value of
  \<open>difflib.SequenceMatcher(None, old_lines, new_lines).get_opcodes()\<close>, which only the
  general path reads.
\<close>

definition apply_changes_preserving_states ::
    "opcode list \<Rightarrow> string \<Rightarrow> string \<Rightarrow> editor \<Rightarrow> error + editor" where
  "apply_changes_preserving_states opcodes old_text new_text e =
     (let old_lines = splitlines old_text;
          new_lines = splitlines new_text
      in if old_text = new_text then Inr e
         else if length old_lines = length new_lines
         then Inr (fast_path old_lines new_lines new_text e)
         else slow_path opcodes new_lines new_text e)"

section \<open>The fix and format commands\<close>








section \<open>Notions used in the statements\<close>

text \<open>The state that the loop of the equal-line-count path writes to line \<open>i\<close>.\<close>

definition new_state :: "string list \<Rightarrow> string list \<Rightarrow> linestate list \<Rightarrow> nat \<Rightarrow> linestate" where
  "new_state old_lines new_lines old_states i =
     (if i < length old_lines \<and> old_lines ! i = new_lines ! i
      then old_states ! i else LINESTATE_CHANGED)"

text \<open>Kinds of calls, and the caret call that \<open>restore_caret\<close> issues.\<close>

fun edit_call :: "call \<Rightarrow> bool" where
  "edit_call (CALL_insert _ _ _) = True"
| "edit_call (CALL_delete _ _ _ _) = True"
| "edit_call _ = False"

fun caret_call :: "call \<Rightarrow> bool" where
  "caret_call (CALL_set_caret _ _) = True"
| "caret_call _ = False"

fun state_call :: "call \<Rightarrow> bool" where
  "state_call (CALL_set_line_state _ _) = True"
| "state_call _ = False"

definition caret_calls :: "caret list \<Rightarrow> editor \<Rightarrow> call list" where
  "caret_calls carets e =
     (case carets of [] \<Rightarrow> []
      | (x, y, _) # _ \<Rightarrow> [CALL_set_caret (fst (clamp_caret e x y)) (snd (clamp_caret e x y))])"

text \<open>
  What \<open>get_opcodes\<close> documents of its result for the sequences \<open>a\<close> and \<open>b\<close>: the
  opcodes start at \<open>(0, 0)\<close>, each one starts where the one before ends, the last one
  ends at the two lengths, an \<open>equal\<close> opcode spans equal lines, a \<open>delete\<close> opcode has
  an empty range in \<open>b\<close> and an \<open>insert\<close> opcode an empty range in \<open>a\<close>.
\<close>

fun valid_from :: "string list \<Rightarrow> string list \<Rightarrow> nat \<Rightarrow> nat \<Rightarrow> opcode list \<Rightarrow> bool" where
  "valid_from a b i j [] = (i = length a \<and> j = length b)"
| "valid_from a b i j ((Tag_equal, i1, i2, j1, j2) # ops) =
     (i1 = i \<and> j1 = j \<and> i1 < i2 \<and> i2 \<le> length a \<and> j2 \<le> length b \<and> i2 - i1 = j2 - j1
      \<and> take (i2 - i1) (drop i1 a) = take (j2 - j1) (drop j1 b) \<and> valid_from a b i2 j2 ops)"
| "valid_from a b i j ((Tag_replace, i1, i2, j1, j2) # ops) =
     (i1 = i \<and> j1 = j \<and> i1 < i2 \<and> j1 < j2 \<and> i2 \<le> length a \<and> j2 \<le> length b
      \<and> valid_from a b i2 j2 ops)"
| "valid_from a b i j ((Tag_delete, i1, i2, j1, j2) # ops) =
     (i1 = i \<and> j1 = j \<and> i1 < i2 \<and> j1 = j2 \<and> i2 \<le> length a \<and> j2 \<le> length b
      \<and> valid_from a b i2 j2 ops)"
| "valid_from a b i j ((Tag_insert, i1, i2, j1, j2) # ops) =
     (i1 = i \<and> j1 = j \<and> i1 = i2 \<and> j1 < j2 \<and> i2 \<le> length a \<and> j2 \<le> length b
      \<and> valid_from a b i2 j2 ops)"

definition valid_opcodes :: "string list \<Rightarrow> string list \<Rightarrow> opcode list \<Rightarrow> bool" where
  "valid_opcodes a b ops = valid_from a b 0 0 ops"

fun patched :: "line list \<Rightarrow> string list \<Rightarrow> opcode list \<Rightarrow> line list" where
  "patched olds b [] = []"
| "patched olds b ((Tag_equal, i1, i2, j1, j2) # ops) =
     take (i2 - i1) (drop i1 olds) @ patched olds b ops"
| "patched olds b ((Tag_replace, i1, i2, j1, j2) # ops) =
     inserted (take (j2 - j1) (drop j1 b)) @ patched olds b ops"
| "patched olds b ((Tag_delete, i1, i2, j1, j2) # ops) = patched olds b ops"
| "patched olds b ((Tag_insert, i1, i2, j1, j2) # ops) =
     inserted (take (j2 - j1) (drop j1 b)) @ patched olds b ops"

text \<open>
  The calls that the opcode loop issues for a valid edit script: the old-range start
  plus the running offset is the new-range start of the opcode.
\<close>

fun script_calls :: "string list \<Rightarrow> opcode list \<Rightarrow> call list" where
  "script_calls b [] = []"
| "script_calls b ((Tag_equal, i1, i2, j1, j2) # ops) = script_calls b ops"
| "script_calls b ((Tag_replace, i1, i2, j1, j2) # ops) =
     replicate (i2 - i1) (CALL_delete 0 (int j1) 0 (int j1 + 1))
     @ map (\<lambda>idx. CALL_insert 0 (int idx) (b ! idx @ [LF])) [j1..<j2]
     @ script_calls b ops"
| "script_calls b ((Tag_delete, i1, i2, j1, j2) # ops) =
     replicate (i2 - i1) (CALL_delete 0 (int j1) 0 (int j1 + 1)) @ script_calls b ops"
| "script_calls b ((Tag_insert, i1, i2, j1, j2) # ops) =
     map (\<lambda>idx. CALL_insert 0 (int idx) (b ! idx @ [LF])) [j1..<j2] @ script_calls b ops"

section \<open>Lemmas on the host model\<close>

lemma split_lf_nonempty [simp]: "split_lf t \<noteq> []"
  by (induction t) (auto split: list.splits)

lemma join_lf_Cons_Cons: "join_lf ((c # l) # ls) = c # join_lf (l # ls)"
  by (cases ls) auto

lemma join_split_lf [simp]: "join_lf (split_lf t) = t"
  by (induction t) (auto simp: join_lf_Cons_Cons split: list.splits)

lemma join_lf_append:
  "A \<noteq> [] \<Longrightarrow> B \<noteq> [] \<Longrightarrow> join_lf (A @ B) = join_lf A @ LF # join_lf B"
proof (induction A rule: join_lf.induct)
  case 1
  then show ?case by simp
next
  case (2 l)
  then show ?case by (cases B) auto
next
  case (3 l v va)
  then show ?case by simp
qed

lemma lines_delete_nonempty: "L \<noteq> [] \<Longrightarrow> lines_delete x1 y1 x2 y2 L \<noteq> []"
  by (auto simp: lines_delete_def split: prod.splits)

lemma lines_insert_nonempty: "L \<noteq> [] \<Longrightarrow> lines_insert x y text L \<noteq> []"
  by (auto simp: lines_insert_def split: prod.splits list.splits)

lemma lines_replace_nonempty: "L \<noteq> [] \<Longrightarrow> lines_replace x1 y1 x2 y2 text L \<noteq> []"
  by (simp add: lines_replace_def lines_insert_nonempty lines_delete_nonempty)

lemma lines_set_state_length [simp]: "length (lines_set_state i s L) = length L"
  by (simp add: lines_set_state_def)

lemma lines_set_state_fst [simp]: "map fst (lines_set_state i s L) = map fst L"
  by (auto simp: lines_set_state_def map_update list_update_same_conv)

lemma delete_all:
  assumes "L \<noteq> []"
  shows "\<exists>s. lines_delete 0 0 (int (length (fst (last L)))) (int (length L) - 1) L = [([], s)]"
proof -
  have n: "length L - 1 < length L" using assms by (cases L) auto
  have loc1: "locate L 0 0 = (0, 0)" using assms by (simp add: locate_def)
  have loc2: "locate L (int (length (fst (last L)))) (int (length L) - 1)
                = (length L - 1, length (fst (last L)))"
    using assms by (auto simp: locate_def last_conv_nth nat_diff_distrib')
  show ?thesis
  proof (cases "length L - 1 = 0 \<and> length (fst (last L)) = 0")
    case True
    then obtain s where "L = [([], s)]" using assms
      by (cases L) (auto split: if_splits)
    then show ?thesis by (simp add: lines_delete_def locate_def)
  next
    case False
    then show ?thesis using assms loc1 loc2 n
      by (auto simp: lines_delete_def last_conv_nth split: prod.splits)
  qed
qed

lemma insert_into_empty:
  "map fst (lines_insert 0 0 text [([], s)]) = split_lf text"
proof (cases "text = []")
  case True
  then show ?thesis by (simp add: lines_insert_def)
next
  case False
  then show ?thesis
    by (auto simp: lines_insert_def locate_def inserted_def comp_def split: list.splits)
qed

lemma replace_all_lines:
  assumes "L \<noteq> []"
  shows "map fst (lines_replace 0 0 (int (length (fst (last L)))) (int (length L) - 1) text L)
           = split_lf text"
  using delete_all [OF assms] by (auto simp: lines_replace_def insert_into_empty)

subsection \<open>What each call leaves alone\<close>

lemma ed_replace_sel [simp]:
  "ed_lines (ed_replace x1 y1 x2 y2 t e) = lines_replace x1 y1 x2 y2 t (ed_lines e)"
  "ed_carets (ed_replace x1 y1 x2 y2 t e) = ed_carets e"
  "ed_calls (ed_replace x1 y1 x2 y2 t e) = ed_calls e @ [CALL_replace x1 y1 x2 y2 t]"
  by (simp_all add: ed_replace_def)

lemma ed_insert_sel [simp]:
  "ed_lines (ed_insert x y t e) = lines_insert x y t (ed_lines e)"
  "ed_carets (ed_insert x y t e) = ed_carets e"
  "ed_calls (ed_insert x y t e) = ed_calls e @ [CALL_insert x y t]"
  by (simp_all add: ed_insert_def)

lemma ed_delete_sel [simp]:
  "ed_lines (ed_delete x1 y1 x2 y2 e) = lines_delete x1 y1 x2 y2 (ed_lines e)"
  "ed_carets (ed_delete x1 y1 x2 y2 e) = ed_carets e"
  "ed_calls (ed_delete x1 y1 x2 y2 e) = ed_calls e @ [CALL_delete x1 y1 x2 y2]"
  by (simp_all add: ed_delete_def)

lemma ed_set_line_state_sel [simp]:
  "ed_lines (ed_set_line_state i s e) = lines_set_state i s (ed_lines e)"
  "ed_carets (ed_set_line_state i s e) = ed_carets e"
  "ed_calls (ed_set_line_state i s e) = ed_calls e @ [CALL_set_line_state i s]"
  by (simp_all add: ed_set_line_state_def)

lemma ed_set_caret_sel [simp]:
  "ed_lines (ed_set_caret x y e) = ed_lines e"
  "ed_carets (ed_set_caret x y e) = [(x, y, - 1, - 1)]"
  "ed_calls (ed_set_caret x y e) = ed_calls e @ [CALL_set_caret x y]"
  by (simp_all add: ed_set_caret_def)

lemma ed_action_update_sel [simp]:
  "ed_lines (ed_action_update e) = ed_lines e"
  "ed_carets (ed_action_update e) = ed_carets e"
  "ed_calls (ed_action_update e) = ed_calls e @ [CALL_action_update]"
  by (simp_all add: ed_action_update_def)

subsection \<open>The state loop of the equal-line-count path\<close>

lemma restore_states_fold:
  "restore_states ol nl os e =
     fold (\<lambda>i. ed_set_line_state (int i) (new_state ol nl os i)) [0..<length nl] e"
  unfolding restore_states_def new_state_def
  by (rule arg_cong [where f = "\<lambda>f. fold f _ e"]) (auto simp: fun_eq_iff)

lemma fold_set_state_calls:
  "ed_calls (fold (\<lambda>i. ed_set_line_state (int i) (g i)) xs e)
     = ed_calls e @ map (\<lambda>i. CALL_set_line_state (int i) (g i)) xs"
  by (induction xs arbitrary: e) auto

lemma fold_set_state_carets:
  "ed_carets (fold (\<lambda>i. ed_set_line_state (int i) (g i)) xs e) = ed_carets e"
  by (induction xs arbitrary: e) auto

lemma fold_set_state_fst:
  "map fst (ed_lines (fold (\<lambda>i. ed_set_line_state (int i) (g i)) xs e)) = map fst (ed_lines e)"
  by (induction xs arbitrary: e) auto

lemma fold_set_state_length:
  "length (ed_lines (fold (\<lambda>i. ed_set_line_state (int i) (g i)) xs e)) = length (ed_lines e)"
  by (induction xs arbitrary: e) auto


lemma restore_states_calls:
  "ed_calls (restore_states ol nl os e)
     = ed_calls e @ map (\<lambda>i. CALL_set_line_state (int i) (new_state ol nl os i)) [0..<length nl]"
  by (simp add: restore_states_fold fold_set_state_calls)

lemma restore_states_carets [simp]: "ed_carets (restore_states ol nl os e) = ed_carets e"
  by (simp add: restore_states_fold fold_set_state_carets)

lemma restore_states_fst [simp]:
  "map fst (ed_lines (restore_states ol nl os e)) = map fst (ed_lines e)"
  by (simp add: restore_states_fold fold_set_state_fst)

lemma restore_states_length [simp]:
  "length (ed_lines (restore_states ol nl os e)) = length (ed_lines e)"
  by (simp add: restore_states_fold fold_set_state_length)


subsection \<open>The caret\<close>

lemma restore_caret_lines [simp]: "ed_lines (restore_caret cs e) = ed_lines e"
  by (auto simp: restore_caret_def split: list.splits prod.splits)

lemma restore_caret_Nil [simp]: "restore_caret [] e = e"
  by (simp add: restore_caret_def)

lemma restore_caret_Cons:
  "restore_caret ((x, y, r) # cs) e
     = ed_set_caret (fst (clamp_caret e x y)) (snd (clamp_caret e x y)) e"
  by (simp add: restore_caret_def split: prod.splits)

lemma clamp_caret_cong:
  "ed_lines e = ed_lines e' \<Longrightarrow> clamp_caret e x y = clamp_caret e' x y"
  by (simp add: clamp_caret_def get_line_count_def get_line_len_def Let_def)

lemma clamp_caret_valid:
  assumes "ed_lines e \<noteq> []" "0 \<le> x" "0 \<le> y"
  shows "0 \<le> snd (clamp_caret e x y) \<and> snd (clamp_caret e x y) < get_line_count e
       \<and> 0 \<le> fst (clamp_caret e x y)
       \<and> fst (clamp_caret e x y) \<le> get_line_len e (snd (clamp_caret e x y))"
  using assms
  by (auto simp: clamp_caret_def get_line_count_def get_line_len_def Let_def)


subsection \<open>Whole-line edits\<close>

lemma split_lf_line: "LF \<notin> set s \<Longrightarrow> split_lf (s @ [LF]) = [s, []]"
  by (induction s) auto

lemma delete_whole_line:
  assumes "R \<noteq> []"
  shows "lines_delete 0 (int (length P)) 0 (int (length P) + 1) (P @ d # R) = P @ R"
proof -
  obtain r R' where R: "R = r # R'" using assms by (cases R) auto
  have l1: "locate (P @ d # R) 0 (int (length P)) = (length P, 0)"
    by (simp add: locate_def)
  have l2: "locate (P @ d # R) 0 (int (length P) + 1) = (Suc (length P), 0)"
    using R by (simp add: locate_def nat_add_distrib)
  have n2: "(P @ d # r # R') ! Suc (length P) = r"
    by (metis append.assoc append_Cons append_Nil length_append_singleton nth_append_length)
  show ?thesis
    unfolding lines_delete_def l1 l2 using R n2
    by (cases d; cases r) auto
qed

lemma insert_whole_line:
  assumes "R \<noteq> []" "LF \<notin> set s"
  shows "lines_insert 0 (int (length P)) (s @ [LF]) (P @ R) = P @ (s, LINESTATE_CHANGED) # R"
proof -
  obtain r R' where R: "R = r # R'" using assms by (cases R) auto
  have l1: "locate (P @ R) 0 (int (length P)) = (length P, 0)"
    using R by (simp add: locate_def)
  show ?thesis
    unfolding lines_insert_def l1 using R split_lf_line [OF assms(2)]
    by (cases r) (auto simp: inserted_def)
qed

lemma delete_lines_carets [simp]: "ed_carets (delete_lines n adj e) = ed_carets e"
  by (induction n arbitrary: e) auto

lemma delete_lines_nonempty: "ed_lines e \<noteq> [] \<Longrightarrow> ed_lines (delete_lines n adj e) \<noteq> []"
  by (induction n arbitrary: e) (auto simp: lines_delete_nonempty)

lemma delete_lines_whole:
  assumes "R \<noteq> []" "ed_lines e = P @ D @ R" "n = length D"
  shows "ed_lines (delete_lines n (int (length P)) e) = P @ R"
  using assms
proof (induction D arbitrary: e n)
  case Nil
  then show ?case by simp
next
  case (Cons d D)
  have "ed_lines (ed_delete 0 (int (length P)) 0 (int (length P) + 1) e) = P @ D @ R"
    using Cons.prems delete_whole_line [of "D @ R" P d] by simp
  then show ?case using Cons.IH [OF Cons.prems(1) _ refl] Cons.prems(3) by simp
qed

lemma delete_lines_calls:
  "\<exists>cs. ed_calls (delete_lines n adj e) = ed_calls e @ cs \<and> list_all edit_call cs"
proof (induction n arbitrary: e)
  case 0
  then show ?case by simp
next
  case (Suc n)
  from Suc [of "ed_delete 0 adj 0 (adj + 1) e"] obtain cs where
    "ed_calls (delete_lines (Suc n) adj e) = ed_calls e @ (CALL_delete 0 adj 0 (adj + 1) # cs)"
    "list_all edit_call cs" by auto
  then show ?case by (intro exI [of _ "CALL_delete 0 adj 0 (adj + 1) # cs"]) simp
qed

lemma insert_lines_total:
  assumes "\<forall>idx \<in> set idxs. idx < length b"
  shows "\<exists>e' cs. insert_lines b idxs adj e = Inr e' \<and> ed_carets e' = ed_carets e
           \<and> (ed_lines e \<noteq> [] \<longrightarrow> ed_lines e' \<noteq> [])
           \<and> ed_calls e' = ed_calls e @ cs \<and> list_all edit_call cs"
  using assms
proof (induction idxs arbitrary: adj e)
  case Nil
  then show ?case by simp
next
  case (Cons idx idxs)
  let ?e = "ed_insert 0 adj (b ! idx @ [LF]) e"
  from Cons.prems have "\<forall>idx \<in> set idxs. idx < length b" by simp
  from Cons.IH [OF this, of "adj + 1" ?e] obtain e' cs where
    *: "insert_lines b idxs (adj + 1) ?e = Inr e'" "ed_carets e' = ed_carets ?e"
       "ed_lines ?e \<noteq> [] \<longrightarrow> ed_lines e' \<noteq> []"
       "ed_calls e' = ed_calls ?e @ cs" "list_all edit_call cs" by blast
  show ?case using * Cons.prems
    by (intro exI [of _ e'] exI [of _ "CALL_insert 0 adj (b ! idx @ [LF]) # cs"])
       (simp add: lines_insert_nonempty)
qed

lemma insert_lines_whole:
  assumes "\<forall>idx \<in> set idxs. idx < length b" "\<forall>s \<in> set b. LF \<notin> set s"
          "R \<noteq> []" "ed_lines e = P @ R"
  shows "\<exists>e'. insert_lines b idxs (int (length P)) e = Inr e'
           \<and> ed_lines e' = P @ inserted (map ((!) b) idxs) @ R"
  using assms
proof (induction idxs arbitrary: P e)
  case Nil
  then show ?case by (simp add: inserted_def)
next
  case (Cons idx idxs)
  let ?e = "ed_insert 0 (int (length P)) (b ! idx @ [LF]) e"
  have idx: "idx < length b" using Cons.prems(1) by simp
  then have nolf: "LF \<notin> set (b ! idx)" using Cons.prems(2) by simp
  have "ed_lines ?e = (P @ [(b ! idx, LINESTATE_CHANGED)]) @ R"
    using insert_whole_line [OF Cons.prems(3) nolf, of P] Cons.prems(4) by simp
  from Cons.IH [OF _ Cons.prems(2,3) this] Cons.prems(1)
  obtain e' where "insert_lines b idxs (int (length (P @ [(b ! idx, LINESTATE_CHANGED)]))) ?e = Inr e'"
      "ed_lines e' = (P @ [(b ! idx, LINESTATE_CHANGED)]) @ inserted (map ((!) b) idxs) @ R"
    by auto
  then show ?case using idx by (simp add: inserted_def add.commute)
qed

lemma map_nth_upt: "j2 \<le> length b \<Longrightarrow> map ((!) b) [j1..<j2] = take (j2 - j1) (drop j1 b)"
  by (rule nth_equalityI) (auto simp: min_def)


subsection \<open>Edit scripts\<close>

lemma inserted_length [simp]: "length (inserted ps) = length ps"
  by (simp add: inserted_def)

lemma inserted_fst [simp]: "map fst (inserted ps) = ps"
  by (simp add: inserted_def comp_def)

lemma apply_opcodes_lines:
  assumes "valid_from a b i j ops" "length olds = length a" "\<forall>s \<in> set b. LF \<notin> set s"
          "R \<noteq> []" "ed_lines e = P @ drop i olds @ R" "length P = j"
  shows "\<exists>e'. apply_opcodes b ops (int j - int i) e = Inr e'
           \<and> ed_lines e' = P @ patched olds b ops @ R"
  using assms
proof (induction ops arbitrary: i j P e)
  case Nil
  then show ?case by simp
next
  case (Cons op ops)
  obtain tag i1 i2 j1 j2 where op: "op = (tag, i1, i2, j1, j2)" by (cases op) auto
  note nolf = Cons.prems(3) and R = Cons.prems(4) and len = Cons.prems(2)
  have split: "drop i olds = take (i2 - i) (drop i olds) @ drop i2 olds" if "i \<le> i2" for i2
    using that by (metis append_take_drop_id drop_drop le_add_diff_inverse2)
  show ?case
  proof (cases tag)
    case Tag_equal
    with Cons.prems(1) op have v: "i1 = i" "j1 = j" "i < i2" "i2 \<le> length a" "j2 \<le> length b"
      "i2 - i = j2 - j" "valid_from a b i2 j2 ops" by auto
    let ?P = "P @ take (i2 - i) (drop i olds)"
    have l: "ed_lines e = ?P @ drop i2 olds @ R"
      using Cons.prems(5) split [of i2] v(3) by simp
    have lp: "length ?P = j2" using Cons.prems(6) v len by simp
    have off: "int j2 - int i2 = int j - int i" using v by linarith
    from Cons.IH [OF v(7) len nolf R l lp] off
    show ?thesis using op Tag_equal v by simp
  next
    case Tag_delete
    with Cons.prems(1) op have v: "i1 = i" "j1 = j" "i < i2" "j2 = j" "i2 \<le> length a"
      "valid_from a b i2 j2 ops" by auto
    let ?e = "delete_lines (i2 - i) (int j) e"
    have l0: "ed_lines e = P @ take (i2 - i) (drop i olds) @ (drop i2 olds @ R)"
      using Cons.prems(5) split [of i2] v(3) by simp
    have ld: "length (take (i2 - i) (drop i olds)) = i2 - i" using v len by simp
    have l: "ed_lines ?e = P @ drop i2 olds @ R"
      using delete_lines_whole [OF _ l0, of "i2 - i"] R ld Cons.prems(6) by simp
    have off: "int j - int i - (int i2 - int i) = int j2 - int i2" using v by linarith
    from Cons.IH [OF v(6) len nolf R l] Cons.prems(6) v(4) off
    show ?thesis using op Tag_delete v by simp
  next
    case Tag_insert
    with Cons.prems(1) op have v: "i1 = i" "j1 = j" "i2 = i" "j < j2" "j2 \<le> length b"
      "valid_from a b i2 j2 ops" by auto
    have idx: "\<forall>idx \<in> set [j..<j2]. idx < length b" using v by auto
    have l0: "ed_lines e = P @ (drop i olds @ R)" using Cons.prems(5) by simp
    from insert_lines_whole [OF idx nolf _ l0] R Cons.prems(6)
    obtain e1 where e1: "insert_lines b [j..<j2] (int j) e = Inr e1"
      "ed_lines e1 = P @ inserted (map ((!) b) [j..<j2]) @ drop i olds @ R" by auto
    let ?P = "P @ inserted (take (j2 - j) (drop j b))"
    have l: "ed_lines e1 = ?P @ drop i2 olds @ R"
      using e1(2) map_nth_upt [OF v(5)] v(3) by simp
    have lp: "length ?P = j2" using Cons.prems(6) v by simp
    have off: "int j - int i + (int j2 - int j) = int j2 - int i2" using v by linarith
    from Cons.IH [OF v(6) len nolf R l lp] off e1(1)
    show ?thesis using op Tag_insert v by simp
  next
    case Tag_replace
    with Cons.prems(1) op have v: "i1 = i" "j1 = j" "i < i2" "j < j2" "i2 \<le> length a"
      "j2 \<le> length b" "valid_from a b i2 j2 ops" by auto
    let ?e = "delete_lines (i2 - i) (int j) e"
    have l0: "ed_lines e = P @ take (i2 - i) (drop i olds) @ (drop i2 olds @ R)"
      using Cons.prems(5) split [of i2] v(3) by simp
    have ld: "length (take (i2 - i) (drop i olds)) = i2 - i" using v len by simp
    have ld': "ed_lines ?e = P @ (drop i2 olds @ R)"
      using delete_lines_whole [OF _ l0, of "i2 - i"] R ld Cons.prems(6) by simp
    have idx: "\<forall>idx \<in> set [j..<j2]. idx < length b" using v by auto
    from insert_lines_whole [OF idx nolf _ ld'] R Cons.prems(6)
    obtain e1 where e1: "insert_lines b [j..<j2] (int j) ?e = Inr e1"
      "ed_lines e1 = P @ inserted (map ((!) b) [j..<j2]) @ drop i2 olds @ R" by auto
    let ?P = "P @ inserted (take (j2 - j) (drop j b))"
    have l: "ed_lines e1 = ?P @ drop i2 olds @ R"
      using e1(2) map_nth_upt [OF v(6)] by simp
    have lp: "length ?P = j2" using Cons.prems(6) v by simp
    have off: "int j - int i + (int j2 - int j - (int i2 - int i)) = int j2 - int i2"
      by linarith
    from Cons.IH [OF v(7) len nolf R l lp] off e1(1)
    show ?thesis using op Tag_replace v by simp
  qed
qed


lemma patched_fst:
  assumes "valid_from a b i j ops" "map fst olds = a"
  shows "map fst (patched olds b ops) = drop j b"
  using assms(1)
proof (induction ops arbitrary: i j)
  case Nil
  then show ?case by simp
next
  case (Cons op ops)
  obtain tag i1 i2 j1 j2 where op: "op = (tag, i1, i2, j1, j2)" by (cases op) auto
  have split: "drop j b = take (j2 - j) (drop j b) @ drop j2 b" if "j \<le> j2"
    using that by (metis append_take_drop_id drop_drop le_add_diff_inverse2)
  show ?case
  proof (cases tag)
    case Tag_equal
    with Cons.prems op have v: "i1 = i" "j1 = j" "i < i2" "i2 - i = j2 - j"
      "take (i2 - i) (drop i a) = take (j2 - j) (drop j b)" "valid_from a b i2 j2 ops" by auto
    have "map fst (take (i2 - i) (drop i olds)) = take (j2 - j) (drop j b)"
      using v(5) assms(2) [symmetric] by (simp add: take_map drop_map)
    moreover have "j \<le> j2" using v by linarith
    ultimately show ?thesis using Cons.IH [OF v(6)] op Tag_equal v split by simp
  next
    case Tag_delete
    with Cons.prems op Cons.IH show ?thesis by auto
  next
    case Tag_insert
    with Cons.prems op have v: "j1 = j" "j < j2" "valid_from a b i2 j2 ops" by auto
    then show ?thesis using Cons.IH [OF v(3)] op Tag_insert split by simp
  next
    case Tag_replace
    with Cons.prems op have v: "j1 = j" "j < j2" "valid_from a b i2 j2 ops" by auto
    then show ?thesis using Cons.IH [OF v(3)] op Tag_replace split by simp
  qed
qed

lemma patched_length:
  assumes "valid_from a b i j ops" "length olds = length a"
  shows "length (patched olds b ops) = length b - j"
  using assms(1)
proof (induction ops arbitrary: i j)
  case Nil
  then show ?case by simp
next
  case (Cons op ops)
  obtain tag i1 i2 j1 j2 where op: "op = (tag, i1, i2, j1, j2)" by (cases op) auto
  have le: "valid_from a b i' j' ops \<Longrightarrow> length (patched olds b ops) = length b - j'" for i' j'
    by (rule Cons.IH)
  show ?case
  proof (cases tag)
    case Tag_equal
    with Cons.prems op have v: "i1 = i" "j1 = j" "i < i2" "i2 - i = j2 - j" "i2 \<le> length a"
      "j2 \<le> length b" "valid_from a b i2 j2 ops" by auto
    show ?thesis using le [OF v(7)] op Tag_equal v assms(2) by simp
  next
    case Tag_delete
    with Cons.prems op le show ?thesis by auto
  next
    case Tag_insert
    with Cons.prems op have v: "j1 = j" "j < j2" "j2 \<le> length b" "valid_from a b i2 j2 ops" by auto
    show ?thesis using le [OF v(4)] op Tag_insert v by simp
  next
    case Tag_replace
    with Cons.prems op have v: "j1 = j" "j < j2" "j2 \<le> length b" "valid_from a b i2 j2 ops" by auto
    show ?thesis using le [OF v(4)] op Tag_replace v by simp
  qed
qed

lemma valid_from_bounds:
  "valid_from a b i j ops \<Longrightarrow> (tag, i1, i2, j1, j2) \<in> set ops \<Longrightarrow>
     i \<le> i1 \<and> j \<le> j1 \<and> i1 \<le> i2 \<and> j1 \<le> j2 \<and> i2 \<le> length a \<and> j2 \<le> length b"
proof (induction ops arbitrary: i j)
  case Nil
  then show ?case by simp
next
  case (Cons op ops)
  obtain t k1 k2 l1 l2 where op: "op = (t, k1, k2, l1, l2)" by (cases op) auto
  from Cons.prems(1) op have v: "k1 = i" "l1 = j" "k1 \<le> k2" "l1 \<le> l2" "k2 \<le> length a"
     "l2 \<le> length b" "valid_from a b k2 l2 ops"
    by (cases t; auto)+
  show ?case
  proof (cases "(tag, i1, i2, j1, j2) = op")
    case True
    then show ?thesis using op v by auto
  next
    case False
    then have "(tag, i1, i2, j1, j2) \<in> set ops" using Cons.prems(2) by simp
    from Cons.IH [OF v(7) this] v show ?thesis by auto
  qed
qed

lemma patched_nth:
  assumes "length olds = length a"
  shows "valid_from a b i j ops \<Longrightarrow> (tag, i1, i2, j1, j2) \<in> set ops \<Longrightarrow> k < j2 - j1 \<Longrightarrow>
     patched olds b ops ! (j1 - j + k)
       = (if tag = Tag_equal then olds ! (i1 + k) else (b ! (j1 + k), LINESTATE_CHANGED))"
proof (induction ops arbitrary: i j)
  case Nil
  then show ?case by simp
next
  case (Cons op ops)
  obtain t k1 k2 l1 l2 where op: "op = (t, k1, k2, l1, l2)" by (cases op) auto
  from Cons.prems(1) op have v: "k1 = i" "l1 = j" "k1 \<le> k2" "l1 \<le> l2" "k2 \<le> length a"
     "l2 \<le> length b" "valid_from a b k2 l2 ops"
    by (cases t; auto)+
  have eqlen: "t = Tag_equal \<Longrightarrow> k2 - k1 = l2 - l1" using Cons.prems(1) op by auto
  have dellen: "t = Tag_delete \<Longrightarrow> l2 = l1" using Cons.prems(1) op by auto
  define seg where "seg = (case t of Tag_equal \<Rightarrow> take (k2 - k1) (drop k1 olds)
      | Tag_delete \<Rightarrow> [] | _ \<Rightarrow> inserted (take (l2 - l1) (drop l1 b)))"
  have pat: "patched olds b (op # ops) = seg @ patched olds b ops"
    using op by (cases t) (auto simp: seg_def)
  have seglen: "length seg = l2 - l1"
    using v eqlen dellen assms by (cases t) (auto simp: seg_def)
  show ?case
  proof (cases "(tag, i1, i2, j1, j2) = op")
    case True
    then have e: "tag = t" "i1 = k1" "i2 = k2" "j1 = l1" "j2 = l2" using op by auto
    have "seg ! k = (if tag = Tag_equal then olds ! (i1 + k) else (b ! (j1 + k), LINESTATE_CHANGED))"
      using Cons.prems(3) e v eqlen dellen assms
      by (cases t) (auto simp: seg_def inserted_def)
    then show ?thesis using pat seglen Cons.prems(3) e v by (simp add: nth_append)
  next
    case False
    then have mem: "(tag, i1, i2, j1, j2) \<in> set ops" using Cons.prems(2) by simp
    from valid_from_bounds [OF v(7) mem] have b: "l2 \<le> j1" by simp
    have "j1 - j + k = length seg + (j1 - l2 + k)" using seglen b v by simp
    then show ?thesis using pat Cons.IH [OF v(7) mem Cons.prems(3)] by (simp add: nth_append)
  qed
qed

lemma splitlines_from_nolf:
  "s \<in> set (splitlines_from cur t) \<Longrightarrow> LF \<notin> set cur \<Longrightarrow> LF \<notin> set s"
  by (induction cur t rule: splitlines_from.induct)
     (auto simp: is_linebreak_def LF_def split: if_splits)

lemma splitlines_nolf: "\<forall>s \<in> set (splitlines t). LF \<notin> set s"
  using splitlines_from_nolf [of _ "[]" t] by (auto simp: splitlines_def)


subsection \<open>The opcode loop on any document\<close>

lemma apply_opcodes_total:
  assumes "\<forall>(tag, i1, i2, j1, j2) \<in> set ops. j2 \<le> length b"
  shows "\<exists>e' cs. apply_opcodes b ops off e = Inr e' \<and> ed_carets e' = ed_carets e
           \<and> (ed_lines e \<noteq> [] \<longrightarrow> ed_lines e' \<noteq> [])
           \<and> ed_calls e' = ed_calls e @ cs \<and> list_all edit_call cs"
  using assms
proof (induction ops arbitrary: off e)
  case Nil
  then show ?case by simp
next
  case (Cons op ops)
  obtain tag i1 i2 j1 j2 where op: "op = (tag, i1, i2, j1, j2)" by (cases op) auto
  have j2: "j2 \<le> length b" using Cons.prems op by auto
  have rest: "\<forall>(tag, i1, i2, j1, j2) \<in> set ops. j2 \<le> length b" using Cons.prems by auto
  have idx: "\<forall>idx \<in> set [j1..<j2]. idx < length b" using j2 by auto
  note IH = Cons.IH [OF rest]
  show ?case
  proof (cases tag)
    case Tag_equal
    then show ?thesis using IH [of off e] op by simp
  next
    case Tag_delete
    let ?e = "delete_lines (i2 - i1) (int i1 + off) e"
    obtain cs where cs: "ed_calls ?e = ed_calls e @ cs" "list_all edit_call cs"
      using delete_lines_calls by blast
    from IH [of "off - (int i2 - int i1)" ?e] obtain e' cs' where
      "apply_opcodes b ops (off - (int i2 - int i1)) ?e = Inr e'" "ed_carets e' = ed_carets ?e"
      "ed_lines ?e \<noteq> [] \<longrightarrow> ed_lines e' \<noteq> []" "ed_calls e' = ed_calls ?e @ cs'"
      "list_all edit_call cs'" by blast
    then show ?thesis using op Tag_delete cs delete_lines_nonempty [of e]
      by (intro exI [of _ e'] exI [of _ "cs @ cs'"]) auto
  next
    case Tag_insert
    from insert_lines_total [OF idx, of "int i1 + off" e] obtain e1 cs where
      e1: "insert_lines b [j1..<j2] (int i1 + off) e = Inr e1" "ed_carets e1 = ed_carets e"
      "ed_lines e \<noteq> [] \<longrightarrow> ed_lines e1 \<noteq> []" "ed_calls e1 = ed_calls e @ cs"
      "list_all edit_call cs" by blast
    from IH [of "off + (int j2 - int j1)" e1] obtain e' cs' where
      "apply_opcodes b ops (off + (int j2 - int j1)) e1 = Inr e'" "ed_carets e' = ed_carets e1"
      "ed_lines e1 \<noteq> [] \<longrightarrow> ed_lines e' \<noteq> []" "ed_calls e' = ed_calls e1 @ cs'"
      "list_all edit_call cs'" by blast
    then show ?thesis using op Tag_insert e1
      by (intro exI [of _ e'] exI [of _ "cs @ cs'"]) auto
  next
    case Tag_replace
    let ?e = "delete_lines (i2 - i1) (int i1 + off) e"
    obtain cs0 where cs0: "ed_calls ?e = ed_calls e @ cs0" "list_all edit_call cs0"
      using delete_lines_calls by blast
    from insert_lines_total [OF idx, of "int i1 + off" ?e] obtain e1 cs where
      e1: "insert_lines b [j1..<j2] (int i1 + off) ?e = Inr e1" "ed_carets e1 = ed_carets ?e"
      "ed_lines ?e \<noteq> [] \<longrightarrow> ed_lines e1 \<noteq> []" "ed_calls e1 = ed_calls ?e @ cs"
      "list_all edit_call cs" by blast
    from IH [of "off + (int j2 - int j1 - (int i2 - int i1))" e1] obtain e' cs' where
      "apply_opcodes b ops (off + (int j2 - int j1 - (int i2 - int i1))) e1 = Inr e'"
      "ed_carets e' = ed_carets e1"
      "ed_lines e1 \<noteq> [] \<longrightarrow> ed_lines e' \<noteq> []" "ed_calls e' = ed_calls e1 @ cs'"
      "list_all edit_call cs'" by blast
    then show ?thesis using op Tag_replace e1 cs0 delete_lines_nonempty [of e]
      by (intro exI [of _ e'] exI [of _ "cs0 @ cs @ cs'"]) auto
  qed
qed

lemma valid_from_in_range:
  "valid_from a b i j ops \<Longrightarrow> \<forall>(tag, i1, i2, j1, j2) \<in> set ops. j2 \<le> length b"
  using valid_from_bounds by blast

subsection \<open>The rewrite of the last line\<close>

lemma split_lf_two: "LF \<in> set t \<Longrightarrow> \<exists>p q qs. split_lf t = p # q # qs"
proof (induction t)
  case Nil
  then show ?case by simp
next
  case (Cons c t)
  obtain l ls where "split_lf t = l # ls" using split_lf_nonempty [of t] by (cases "split_lf t") auto
  then show ?case using Cons by (auto split: list.splits)
qed

lemma insert_at_empty_last:
  "map fst (lines_insert 0 (int (length Q)) text (Q @ [([], s)])) = map fst Q @ split_lf text"
proof (cases "text = []")
  case True
  then show ?thesis by (simp add: lines_insert_def)
next
  case False
  have "locate (Q @ [([], s)]) 0 (int (length Q)) = (length Q, 0)" by (simp add: locate_def)
  then show ?thesis using False
    by (auto simp: lines_insert_def inserted_def comp_def split: list.splits)
qed

lemma delete_last_line:
  "\<exists>s'. lines_delete 0 (int (length Q)) (int (length t)) (int (length Q)) (Q @ [(t, s)])
          = Q @ [([], s')]"
proof -
  have l1: "locate (Q @ [(t, s)]) 0 (int (length Q)) = (length Q, 0)" by (simp add: locate_def)
  have l2: "locate (Q @ [(t, s)]) (int (length t)) (int (length Q)) = (length Q, length t)"
    by (simp add: locate_def)
  show ?thesis unfolding lines_delete_def l1 l2 by (cases "t = []") auto
qed

lemma replace_last_line:
  "map fst (lines_replace 0 (int (length Q)) (int (length t)) (int (length Q)) text (Q @ [(t, s)]))
     = map fst Q @ split_lf text"
  using delete_last_line [of Q t s] by (auto simp: lines_replace_def insert_at_empty_last)

lemma join_lf_snoc_lf: "join_lf (A @ [t @ [LF]]) = join_lf (A @ [t]) @ [LF]"
  by (cases "A = []") (simp_all add: join_lf_append)

lemma ensure_last_newline_result:
  assumes "ed_lines e \<noteq> []"
  shows "\<exists>e'. ensure_last_newline new_text e = Inr e' \<and> ed_carets e' = ed_carets e
           \<and> ed_lines e' \<noteq> []
           \<and> ed_calls e' = ed_calls e @
               (if endswith_lf new_text
                then [CALL_replace 0 (get_line_count e - 1) (get_line_len e (get_line_count e - 1))
                        (get_line_count e - 1) (fst (last (ed_lines e)) @ [LF])]
                else [])
           \<and> get_text_all e' = get_text_all e @ (if endswith_lf new_text then [LF] else [])"
proof (cases "endswith_lf new_text")
  case False
  then show ?thesis using assms by (simp add: ensure_last_newline_def)
next
  case True
  obtain Q t s where L: "ed_lines e = Q @ [(t, s)]"
    using assms by (metis rev_exhaust surj_pair)
  have cnt: "get_line_count e - 1 = int (length Q)" by (simp add: get_line_count_def L)
  have ln: "get_line_len e (int (length Q)) = int (length t)" by (simp add: get_line_len_def L)
  have tx: "get_text_line e (int (length Q)) = Some t" by (simp add: get_text_line_def L)
  let ?e = "ed_replace 0 (int (length Q)) (int (length t)) (int (length Q)) (t @ [LF]) e"
  have r: "ensure_last_newline new_text e = Inr ?e"
    using True by (simp add: ensure_last_newline_def cnt ln tx Let_def)
  have lines: "map fst (ed_lines ?e) = map fst Q @ split_lf (t @ [LF])"
    using replace_last_line [of Q t "t @ [LF]" s] by (simp add: L)
  have "join_lf (map fst Q @ split_lf (t @ [LF])) = join_lf (map fst Q @ [t @ [LF]])"
    by (cases "Q = []") (simp_all add: join_lf_append)
  then have whole: "get_text_all ?e = get_text_all e @ [LF]"
    using lines by (simp add: get_text_all_def L join_lf_snoc_lf)
  have ne: "ed_lines ?e \<noteq> []" using assms by (simp add: lines_replace_nonempty)
  show ?thesis using r whole ne True by (simp add: cnt ln L)
qed

lemma ensure_last_newline_terminated:
  assumes "ed_lines e = Q @ [([], s)]" "endswith_lf new_text"
  shows "\<exists>e'. ensure_last_newline new_text e = Inr e'
           \<and> ed_lines e' = Q @ [([], LINESTATE_CHANGED), ([], s)]"
proof -
  have cnt: "get_line_count e - 1 = int (length Q)" by (simp add: get_line_count_def assms)
  have ln: "get_line_len e (int (length Q)) = 0" by (simp add: get_line_len_def assms)
  have tx: "get_text_line e (int (length Q)) = Some []" by (simp add: get_text_line_def assms)
  have l: "locate (Q @ [([], s)]) 0 (int (length Q)) = (length Q, 0)" by (simp add: locate_def)
  have d: "lines_delete 0 (int (length Q)) 0 (int (length Q)) (Q @ [([], s)]) = Q @ [([], s)]"
    by (simp add: lines_delete_def l)
  have i: "lines_insert 0 (int (length Q)) [LF] (Q @ [([], s)])
             = Q @ [([], LINESTATE_CHANGED), ([], s)]"
    by (simp add: lines_insert_def l inserted_def)
  show ?thesis using assms(2)
    by (simp add: ensure_last_newline_def cnt ln tx assms(1) lines_replace_def d i Let_def)
qed

lemma last_line_idx:
  "ed_lines e \<noteq> [] \<Longrightarrow>
     get_line_len e (get_line_count e - 1) = int (length (fst (last (ed_lines e))))"
  by (auto simp: get_line_len_def get_line_count_def last_conv_nth nat_diff_distrib')

lemma restore_caret_calls:
  "ed_calls (restore_caret carets e) = ed_calls e @ caret_calls carets e"
  by (auto simp: restore_caret_def caret_calls_def split: list.splits prod.splits)

lemma restore_caret_carets:
  "ed_carets (restore_caret carets e) =
     (case carets of [] \<Rightarrow> ed_carets e
      | (x, y, _) # _ \<Rightarrow> [(fst (clamp_caret e x y), snd (clamp_caret e x y), - 1, - 1)])"
  by (auto simp: restore_caret_def split: list.splits prod.splits)

lemma caret_calls_cong: "ed_lines e = ed_lines e' \<Longrightarrow> caret_calls cs e = caret_calls cs e'"
  by (auto simp: caret_calls_def clamp_caret_cong [of e e'] split: list.splits)

lemma fast_path_lines:
  assumes "ed_lines e \<noteq> []"
  shows "map fst (ed_lines (fast_path ol nl t e)) = split_lf t"
proof -
  let ?e1 = "ed_replace 0 0 (get_line_len e (get_line_count e - 1)) (get_line_count e - 1) t e"
  have "map fst (ed_lines ?e1) = split_lf t"
    using replace_all_lines [OF assms, of t]
    by (simp add: last_line_idx [OF assms]) (simp add: get_line_count_def)
  then show ?thesis by (simp add: fast_path_def Let_def)
qed

lemma fast_path_calls:
  "ed_calls (fast_path ol nl t e) =
     ed_calls e
     @ CALL_replace 0 0 (get_line_len e (get_line_count e - 1)) (get_line_count e - 1) t
     # (if get_line_states e \<noteq> [] \<and> length ol \<le> length (get_line_states e)
        then map (\<lambda>i. CALL_set_line_state (int i) (new_state ol nl (get_line_states e) i))
               [0..<length nl]
        else [])
     @ caret_calls (get_carets e) (fast_path ol nl t e)
     @ [CALL_action_update]"
proof -
  let ?e1 = "ed_replace 0 0 (get_line_len e (get_line_count e - 1)) (get_line_count e - 1) t e"
  let ?e2 = "if get_line_states e \<noteq> [] \<and> length ol \<le> length (get_line_states e)
             then restore_states ol nl (get_line_states e) ?e1 else ?e1"
  have f: "fast_path ol nl t e = ed_action_update (restore_caret (get_carets e) ?e2)"
    by (simp add: fast_path_def Let_def)
  have c: "caret_calls (get_carets e) (fast_path ol nl t e) = caret_calls (get_carets e) ?e2"
    by (rule caret_calls_cong) (simp add: f)
  show ?thesis unfolding c unfolding f
    by (simp add: restore_caret_calls restore_states_calls)
qed

lemma fast_path_carets:
  "ed_carets (fast_path ol nl t e) =
     (case get_carets e of [] \<Rightarrow> []
      | (x, y, _) # _ \<Rightarrow>
          [(fst (clamp_caret (fast_path ol nl t e) x y),
            snd (clamp_caret (fast_path ol nl t e) x y), - 1, - 1)])"
proof -
  let ?e1 = "ed_replace 0 0 (get_line_len e (get_line_count e - 1)) (get_line_count e - 1) t e"
  let ?e2 = "if get_line_states e \<noteq> [] \<and> length ol \<le> length (get_line_states e)
             then restore_states ol nl (get_line_states e) ?e1 else ?e1"
  have f: "fast_path ol nl t e = ed_action_update (restore_caret (get_carets e) ?e2)"
    by (simp add: fast_path_def Let_def)
  have c: "clamp_caret (fast_path ol nl t e) x y = clamp_caret ?e2 x y" for x y
    by (rule clamp_caret_cong) (simp add: f)
  show ?thesis unfolding c unfolding f
    by (auto simp: restore_caret_carets get_carets_def split: list.splits)
qed


lemma insert_lines_nonempty:
  "insert_lines b idxs adj e = Inr e' \<Longrightarrow> ed_lines e \<noteq> [] \<Longrightarrow> ed_lines e' \<noteq> []"
  by (induction idxs arbitrary: adj e) (auto simp: lines_insert_nonempty split: if_splits)

lemma apply_opcodes_nonempty:
  "apply_opcodes b ops off e = Inr e' \<Longrightarrow> ed_lines e \<noteq> [] \<Longrightarrow> ed_lines e' \<noteq> []"
proof (induction b ops off e rule: apply_opcodes.induct)
  case (1 new_lines offset e)
  then show ?case by simp
next
  case (2 new_lines i1 i2 j1 j2 ops offset e)
  then show ?case by simp
next
  case (3 new_lines i1 i2 j1 j2 ops offset e)
  then show ?case
    by (auto split: sum.splits dest!: insert_lines_nonempty simp: delete_lines_nonempty)
next
  case (4 new_lines i1 i2 j1 j2 ops offset e)
  then show ?case by (simp add: delete_lines_nonempty)
next
  case (5 new_lines i1 i2 j1 j2 ops offset e)
  then show ?case by (auto split: sum.splits dest!: insert_lines_nonempty)
qed

lemma slow_path_steps:
  assumes "apply_opcodes nl ops 0 e = Inr e1" "ed_lines e \<noteq> []"
  shows "\<exists>e2. ensure_last_newline t e1 = Inr e2
           \<and> slow_path ops nl t e = Inr (ed_action_update (restore_caret (get_carets e) e2))
           \<and> ed_carets e2 = ed_carets e1 \<and> ed_lines e2 \<noteq> []
           \<and> ed_calls e2 = ed_calls e1 @
               (if endswith_lf t
                then [CALL_replace 0 (get_line_count e1 - 1)
                        (get_line_len e1 (get_line_count e1 - 1))
                        (get_line_count e1 - 1) (fst (last (ed_lines e1)) @ [LF])]
                else [])
           \<and> get_text_all e2 = get_text_all e1 @ (if endswith_lf t then [LF] else [])"
proof -
  have ne: "ed_lines e1 \<noteq> []" using apply_opcodes_nonempty [OF assms] .
  from ensure_last_newline_result [OF ne, of t] obtain e2 where
    e2: "ensure_last_newline t e1 = Inr e2" "ed_carets e2 = ed_carets e1" "ed_lines e2 \<noteq> []"
     "ed_calls e2 = ed_calls e1 @
               (if endswith_lf t
                then [CALL_replace 0 (get_line_count e1 - 1)
                        (get_line_len e1 (get_line_count e1 - 1))
                        (get_line_count e1 - 1) (fst (last (ed_lines e1)) @ [LF])]
                else [])"
     "get_text_all e2 = get_text_all e1 @ (if endswith_lf t then [LF] else [])" by blast
  have "slow_path ops nl t e = Inr (ed_action_update (restore_caret (get_carets e) e2))"
    by (simp add: slow_path_def assms(1) e2(1))
  then show ?thesis using e2 by blast
qed


lemma edit_calls_no_state: "list_all edit_call cs \<Longrightarrow> filter state_call cs = []"
  by (induction cs) (auto elim: edit_call.elims)

lemma edit_calls_no_caret: "list_all edit_call cs \<Longrightarrow> filter caret_call cs = []"
  by (induction cs) (auto elim: edit_call.elims)

lemma caret_calls_filter [simp]: "filter caret_call (caret_calls cs e) = caret_calls cs e"
  by (auto simp: caret_calls_def split: list.splits)

lemma caret_calls_no_state [simp]: "filter state_call (caret_calls cs e) = []"
  by (auto simp: caret_calls_def split: list.splits)

lemma slow_path_result:
  assumes "valid_opcodes ol nl ops" "ed_lines e \<noteq> []"
  shows "\<exists>e1 e2 cs. apply_opcodes nl ops 0 e = Inr e1 \<and> ensure_last_newline t e1 = Inr e2
           \<and> slow_path ops nl t e = Inr (ed_action_update (restore_caret (get_carets e) e2))
           \<and> ed_carets e2 = ed_carets e \<and> ed_lines e2 \<noteq> []
           \<and> ed_calls e1 = ed_calls e @ cs \<and> list_all edit_call cs
           \<and> ed_calls e2 = ed_calls e1 @
               (if endswith_lf t
                then [CALL_replace 0 (get_line_count e1 - 1)
                        (get_line_len e1 (get_line_count e1 - 1))
                        (get_line_count e1 - 1) (fst (last (ed_lines e1)) @ [LF])]
                else [])"
proof -
  have "\<forall>(tag, i1, i2, j1, j2) \<in> set ops. j2 \<le> length nl"
    using assms(1) valid_from_in_range unfolding valid_opcodes_def by blast
  from apply_opcodes_total [OF this, of 0 e] obtain e1 cs where
    e1: "apply_opcodes nl ops 0 e = Inr e1" "ed_carets e1 = ed_carets e"
        "ed_calls e1 = ed_calls e @ cs" "list_all edit_call cs" by blast
  from slow_path_steps [OF e1(1) assms(2), of t] obtain e2 where
    e2: "ensure_last_newline t e1 = Inr e2"
      "slow_path ops nl t e = Inr (ed_action_update (restore_caret (get_carets e) e2))"
      "ed_carets e2 = ed_carets e1" "ed_lines e2 \<noteq> []"
      "ed_calls e2 = ed_calls e1 @
               (if endswith_lf t
                then [CALL_replace 0 (get_line_count e1 - 1)
                        (get_line_len e1 (get_line_count e1 - 1))
                        (get_line_count e1 - 1) (fst (last (ed_lines e1)) @ [LF])]
                else [])" by blast
  show ?thesis using e1 e2 by (intro exI [of _ e1] exI [of _ e2] exI [of _ cs]) simp
qed

lemma reconcile_unfold:
  "old_text \<noteq> new_text \<Longrightarrow>
   apply_changes_preserving_states ops old_text new_text e =
     (if length (splitlines old_text) = length (splitlines new_text)
      then Inr (fast_path (splitlines old_text) (splitlines new_text) new_text e)
      else slow_path ops (splitlines new_text) new_text e)"
  by (simp add: apply_changes_preserving_states_def Let_def)

text \<open>What both paths do with the caret, on any document with at least one line.\<close>

lemma reconcile_caret:
  assumes "old_text \<noteq> new_text" "ed_lines e \<noteq> []"
      and "length (splitlines old_text) \<noteq> length (splitlines new_text) \<Longrightarrow>
             valid_opcodes (splitlines old_text) (splitlines new_text) ops"
  shows "\<exists>e' new_calls. apply_changes_preserving_states ops old_text new_text e = Inr e'
           \<and> ed_lines e' \<noteq> []
           \<and> ed_calls e' = ed_calls e @ new_calls
           \<and> filter caret_call new_calls = caret_calls (get_carets e) e'
           \<and> ed_carets e' =
               (case get_carets e of [] \<Rightarrow> []
                | (x, y, _) # _ \<Rightarrow>
                    [(fst (clamp_caret e' x y), snd (clamp_caret e' x y), - 1, - 1)])"
proof (cases "length (splitlines old_text) = length (splitlines new_text)")
  case True
  let ?e' = "fast_path (splitlines old_text) (splitlines new_text) new_text e"
  have r: "apply_changes_preserving_states ops old_text new_text e = Inr ?e'"
    using True assms(1) by (simp add: reconcile_unfold)
  have ne: "ed_lines ?e' \<noteq> []"
    using fast_path_lines [OF assms(2), of "splitlines old_text" "splitlines new_text" new_text]
    by (metis map_is_Nil_conv split_lf_nonempty)
  show ?thesis
    apply (rule exI [of _ ?e'])
    apply (rule exI [of _ "drop (length (ed_calls e)) (ed_calls ?e')"])
    using r ne fast_path_carets [of "splitlines old_text" "splitlines new_text" new_text e]
    by (simp add: fast_path_calls filter_map comp_def)
next
  case False
  from slow_path_result [OF assms(3) [OF False] assms(2), of new_text] obtain e1 e2 cs where
    *: "slow_path ops (splitlines new_text) new_text e
          = Inr (ed_action_update (restore_caret (get_carets e) e2))"
       "ed_carets e2 = ed_carets e" "ed_lines e2 \<noteq> []"
       "ed_calls e1 = ed_calls e @ cs" "list_all edit_call cs"
       "ed_calls e2 = ed_calls e1 @
               (if endswith_lf new_text
                then [CALL_replace 0 (get_line_count e1 - 1)
                        (get_line_len e1 (get_line_count e1 - 1))
                        (get_line_count e1 - 1) (fst (last (ed_lines e1)) @ [LF])]
                else [])" by blast
  let ?e' = "ed_action_update (restore_caret (get_carets e) e2)"
  have r: "apply_changes_preserving_states ops old_text new_text e = Inr ?e'"
    using False assms(1) * by (simp add: reconcile_unfold)
  have c: "clamp_caret ?e' x y = clamp_caret e2 x y" for x y
    by (rule clamp_caret_cong) simp
  have cc: "caret_calls (get_carets e) ?e' = caret_calls (get_carets e) e2"
    by (rule caret_calls_cong) simp
  show ?thesis
    apply (rule exI [of _ ?e'])
    apply (rule exI [of _ "drop (length (ed_calls e)) (ed_calls ?e')"])
    unfolding c cc using r *
    by (auto simp: restore_caret_calls restore_caret_carets get_carets_def edit_calls_no_caret
             split: list.splits)
qed

lemma valid_from_equal_len:
  "valid_from a b i j ops \<Longrightarrow> (Tag_equal, i1, i2, j1, j2) \<in> set ops \<Longrightarrow> i2 - i1 = j2 - j1"
proof (induction ops arbitrary: i j)
  case Nil
  then show ?case by simp
next
  case (Cons op ops)
  obtain t k1 k2 l1 l2 where op: "op = (t, k1, k2, l1, l2)" by (cases op) auto
  from Cons.prems(1) op have v: "valid_from a b k2 l2 ops" by (cases t) auto
  show ?case
  proof (cases "(Tag_equal, i1, i2, j1, j2) = op")
    case True
    then show ?thesis using Cons.prems(1) by auto
  next
    case False
    then show ?thesis using Cons.IH [OF v] Cons.prems(2) by simp
  qed
qed

lemma slow_path_states:
  assumes "valid_opcodes ol nl ops" "map fst (ed_lines e) = ol @ [[]]"
          "\<forall>s \<in> set nl. LF \<notin> set s"
  shows "\<exists>e' new_calls. slow_path ops nl t e = Inr e'
           \<and> ed_calls e' = ed_calls e @ new_calls \<and> filter state_call new_calls = []
           \<and> (\<forall>(tag, i1, i2, j1, j2) \<in> set ops. \<forall>k < j2 - j1.
                 ed_lines e' ! (j1 + k) =
                   (if tag = Tag_equal then ed_lines e ! (i1 + k)
                    else (nl ! (j1 + k), LINESTATE_CHANGED)))
           \<and> map fst (ed_lines e') = nl @ (if endswith_lf t then [[], []] else [[]])"
proof -
  have ne: "ed_lines e \<noteq> []" using assms(2) by auto
  define olds where "olds = butlast (ed_lines e)"
  define sf where "sf = snd (last (ed_lines e))"
  have L: "ed_lines e = olds @ [([], sf)]"
  proof -
    have "map fst (butlast (ed_lines e) @ [last (ed_lines e)]) = ol @ [[]]"
      using assms(2) ne by simp
    then have "fst (last (ed_lines e)) = []" by simp
    then have "last (ed_lines e) = ([], sf)" by (simp add: sf_def prod_eq_iff)
    then show ?thesis using ne unfolding olds_def by (metis append_butlast_last_id)
  qed
  have olds: "map fst olds = ol" using assms(2) L by simp
  then have len: "length olds = length ol" by (metis length_map)
  have v: "valid_from ol nl 0 0 ops" using assms(1) by (simp add: valid_opcodes_def)
  from apply_opcodes_lines [OF v len assms(3), of "[([], sf)]" e "[]"] L
  obtain e1 where e1: "apply_opcodes nl ops 0 e = Inr e1"
      "ed_lines e1 = patched olds nl ops @ [([], sf)]" by auto
  from slow_path_result [OF assms(1) ne, of t] e1(1) obtain e2 cs where
    e2: "ensure_last_newline t e1 = Inr e2"
        "slow_path ops nl t e = Inr (ed_action_update (restore_caret (get_carets e) e2))"
        "ed_calls e1 = ed_calls e @ cs" "list_all edit_call cs"
        "ed_calls e2 = ed_calls e1 @
               (if endswith_lf t
                then [CALL_replace 0 (get_line_count e1 - 1)
                        (get_line_len e1 (get_line_count e1 - 1))
                        (get_line_count e1 - 1) (fst (last (ed_lines e1)) @ [LF])]
                else [])" by auto
  let ?X = "if endswith_lf t then [([], LINESTATE_CHANGED), ([], sf)] else [([], sf)]"
  have l2: "ed_lines e2 = patched olds nl ops @ ?X"
  proof (cases "endswith_lf t")
    case True
    from ensure_last_newline_terminated [OF e1(2) True] e2(1) show ?thesis using True by auto
  next
    case False
    then have "e2 = e1" using e2(1) by (simp add: ensure_last_newline_def)
    then show ?thesis using False e1(2) by simp
  qed
  let ?e' = "ed_action_update (restore_caret (get_carets e) e2)"
  have l': "ed_lines ?e' = patched olds nl ops @ ?X" using l2 by simp
  have plen: "length (patched olds nl ops) = length nl"
    using patched_length [OF v len] by simp
  have idx: "ed_lines ?e' ! (j1 + k) =
               (if tag = Tag_equal then ed_lines e ! (i1 + k) else (nl ! (j1 + k), LINESTATE_CHANGED))"
    if mem: "(tag, i1, i2, j1, j2) \<in> set ops" and k: "k < j2 - j1" for tag i1 i2 j1 j2 k
  proof -
    from valid_from_bounds [OF v mem] have b: "i2 \<le> length ol" "j2 \<le> length nl" by auto
    have "j1 + k < length nl" using b k by linarith
    then have "ed_lines ?e' ! (j1 + k) = patched olds nl ops ! (j1 + k)"
      unfolding l' using plen by (simp add: nth_append)
    also have "\<dots> = (if tag = Tag_equal then olds ! (i1 + k) else (nl ! (j1 + k), LINESTATE_CHANGED))"
      using patched_nth [OF len v mem k] by simp
    also have "\<dots> = (if tag = Tag_equal then ed_lines e ! (i1 + k)
                      else (nl ! (j1 + k), LINESTATE_CHANGED))"
    proof (cases "tag = Tag_equal")
      case True
      with valid_from_equal_len [OF v] mem have "i2 - i1 = j2 - j1" by blast
      then have "i1 + k < length olds" using k b len by linarith
      then show ?thesis using True L by (simp add: nth_append)
    next
      case False
      then show ?thesis by simp
    qed
    finally show ?thesis .
  qed
  have fst': "map fst (ed_lines ?e') = nl @ (if endswith_lf t then [[], []] else [[]])"
    unfolding l' using patched_fst [OF v olds] by simp
  have calls: "ed_calls ?e' = ed_calls e @ drop (length (ed_calls e)) (ed_calls ?e')"
    using e2 by (simp add: restore_caret_calls)
  have nostate: "filter state_call (drop (length (ed_calls e)) (ed_calls ?e')) = []"
    using e2 by (simp add: restore_caret_calls edit_calls_no_state)
  show ?thesis
    apply (rule exI [of _ ?e'])
    apply (rule exI [of _ "drop (length (ed_calls e)) (ed_calls ?e')"])
    using e2(2) calls nostate idx fst' by blast
qed

subsection \<open>The calls of the opcode loop\<close>

lemma delete_lines_calls_exact:
  "ed_calls (delete_lines n adj e) = ed_calls e @ replicate n (CALL_delete 0 adj 0 (adj + 1))"
  by (induction n arbitrary: e) (simp_all add: replicate_app_Cons_same)

lemma insert_lines_calls_exact:
  assumes "j2 \<le> length b"
  shows "\<exists>e'. insert_lines b [j1..<j2] (int j1) e = Inr e'
           \<and> ed_calls e' = ed_calls e
               @ map (\<lambda>idx. CALL_insert 0 (int idx) (b ! idx @ [LF])) [j1..<j2]"
  using assms
proof (induction "j2 - j1" arbitrary: j1 e)
  case 0
  then show ?case by simp
next
  case (Suc n)
  then have lt: "j1 < j2" and n: "n = j2 - Suc j1" by linarith+
  have u: "[j1..<j2] = j1 # [Suc j1..<j2]" using lt by (simp add: upt_conv_Cons)
  from Suc.hyps(1) [OF n Suc.prems, of "ed_insert 0 (int j1) (b ! j1 @ [LF]) e"]
  obtain e' where "insert_lines b [Suc j1..<j2] (int (Suc j1))
                     (ed_insert 0 (int j1) (b ! j1 @ [LF]) e) = Inr e'"
    "ed_calls e' = ed_calls (ed_insert 0 (int j1) (b ! j1 @ [LF]) e)
       @ map (\<lambda>idx. CALL_insert 0 (int idx) (b ! idx @ [LF])) [Suc j1..<j2]" by blast
  then show ?case using lt Suc.prems unfolding u by (simp add: add.commute)
qed

lemma apply_opcodes_calls:
  assumes "valid_from a b i j ops"
  shows "\<exists>e'. apply_opcodes b ops (int j - int i) e = Inr e'
           \<and> ed_calls e' = ed_calls e @ script_calls b ops"
  using assms
proof (induction ops arbitrary: i j e)
  case Nil
  then show ?case by simp
next
  case (Cons op ops)
  obtain tag i1 i2 j1 j2 where op: "op = (tag, i1, i2, j1, j2)" by (cases op) auto
  show ?case
  proof (cases tag)
    case Tag_equal
    with Cons.prems op have v: "i1 = i" "j1 = j" "i < i2" "i2 - i = j2 - j"
      "valid_from a b i2 j2 ops" by auto
    have off: "int j2 - int i2 = int j - int i" using v by linarith
    from Cons.IH [OF v(5), of e] off show ?thesis using op Tag_equal by simp
  next
    case Tag_delete
    with Cons.prems op have v: "i1 = i" "j1 = j" "i < i2" "j2 = j"
      "valid_from a b i2 j2 ops" by auto
    let ?e = "delete_lines (i2 - i) (int j) e"
    have off: "int j - int i - (int i2 - int i) = int j2 - int i2" using v by linarith
    from Cons.IH [OF v(5), of ?e] off
    show ?thesis using op Tag_delete v by (simp add: delete_lines_calls_exact)
  next
    case Tag_insert
    with Cons.prems op have v: "i1 = i" "j1 = j" "i2 = i" "j < j2" "j2 \<le> length b"
      "valid_from a b i2 j2 ops" by auto
    from insert_lines_calls_exact [OF v(5), of j e] obtain e1 where
      e1: "insert_lines b [j..<j2] (int j) e = Inr e1"
          "ed_calls e1 = ed_calls e
             @ map (\<lambda>idx. CALL_insert 0 (int idx) (b ! idx @ [LF])) [j..<j2]" by blast
    have off: "int j - int i + (int j2 - int j) = int j2 - int i2" using v by linarith
    from Cons.IH [OF v(6), of e1] off e1
    show ?thesis using op Tag_insert v by simp
  next
    case Tag_replace
    with Cons.prems op have v: "i1 = i" "j1 = j" "i < i2" "j < j2" "j2 \<le> length b"
      "valid_from a b i2 j2 ops" by auto
    let ?e = "delete_lines (i2 - i) (int j) e"
    from insert_lines_calls_exact [OF v(5), of j ?e] obtain e1 where
      e1: "insert_lines b [j..<j2] (int j) ?e = Inr e1"
          "ed_calls e1 = ed_calls ?e
             @ map (\<lambda>idx. CALL_insert 0 (int idx) (b ! idx @ [LF])) [j..<j2]" by blast
    have off: "int j - int i + (int j2 - int j - (int i2 - int i)) = int j2 - int i2"
      by linarith
    from Cons.IH [OF v(6), of e1] off e1
    show ?thesis using op Tag_replace v by (simp add: delete_lines_calls_exact)
  qed
qed

section \<open>The no-op short-circuit\<close>

text \<open>
  C5. Reconciling a text with itself returns at once: the editor, with its lines, line
  states, carets and the list of calls it has received, is exactly what it was.
\<close>

theorem noop_same_text:
  "apply_changes_preserving_states opcodes T T e = Inr e"
  by (simp add: apply_changes_preserving_states_def)

section \<open>The equal-line-count path\<close>

text \<open>
  C4, amended. When both texts have the same number of lines and differ, and the line
  states read before the edit are a non-empty list at least as long as the old lines,
  the reconciler issues one replace call over the whole document with the new text,
  then one line-state write per new line in index order (the state read before the
  edit where the old and the new line are equal, \<open>LINESTATE_CHANGED\<close> otherwise), then
  the caret write and the update; the document then holds the new text.
\<close>

theorem equal_count_path_writes:
  assumes "old_text \<noteq> new_text"
      and "length (splitlines old_text) = length (splitlines new_text)"
      and "get_line_states e \<noteq> []"
      and "length (splitlines old_text) \<le> length (get_line_states e)"
  shows "\<exists>e'. apply_changes_preserving_states opcodes old_text new_text e = Inr e'
           \<and> ed_calls e' = ed_calls e
               @ CALL_replace 0 0 (get_line_len e (get_line_count e - 1)) (get_line_count e - 1)
                   new_text
               # map (\<lambda>i. CALL_set_line_state (int i)
                            (if splitlines old_text ! i = splitlines new_text ! i
                             then get_line_states e ! i else LINESTATE_CHANGED))
                   [0..<length (splitlines new_text)]
               @ caret_calls (get_carets e) e' @ [CALL_action_update]
           \<and> get_text_all e' = new_text"
proof -
  let ?ol = "splitlines old_text" and ?nl = "splitlines new_text"
  let ?e' = "fast_path ?ol ?nl new_text e"
  have r: "apply_changes_preserving_states opcodes old_text new_text e = Inr ?e'"
    using assms(1,2) by (simp add: reconcile_unfold)
  have ne: "ed_lines e \<noteq> []" using assms(3) by (auto simp: get_line_states_def)
  have m: "map (\<lambda>i. CALL_set_line_state (int i) (new_state ?ol ?nl (get_line_states e) i))
             [0..<length ?nl]
         = map (\<lambda>i. CALL_set_line_state (int i)
                      (if ?ol ! i = ?nl ! i then get_line_states e ! i else LINESTATE_CHANGED))
             [0..<length ?nl]"
    using assms(2) by (intro map_cong) (auto simp: new_state_def)
  have t: "get_text_all ?e' = new_text"
    using fast_path_lines [OF ne, of ?ol ?nl new_text] by (simp add: get_text_all_def)
  show ?thesis
    apply (rule exI [of _ ?e'])
    using r t m assms(3,4) fast_path_calls [of ?ol ?nl new_text e] by simp
qed

theorem equal_count_path_writes_witness:
  "''a\<newline>b\<newline>c'' \<noteq> ''a\<newline>x\<newline>c''
   \<and> length (splitlines ''a\<newline>b\<newline>c'') = length (splitlines ''a\<newline>x\<newline>c'')
   \<and> get_line_states
        \<lparr>ed_lines = [(''a'', LINESTATE_SAVED), (''b'', LINESTATE_NORMAL), (''c'', LINESTATE_ADDED)],
         ed_carets = [(1, 1, - 1, - 1)], ed_calls = []\<rparr> \<noteq> []
   \<and> (\<exists>e'. apply_changes_preserving_states [] ''a\<newline>b\<newline>c'' ''a\<newline>x\<newline>c''
              \<lparr>ed_lines = [(''a'', LINESTATE_SAVED), (''b'', LINESTATE_NORMAL),
                           (''c'', LINESTATE_ADDED)],
               ed_carets = [(1, 1, - 1, - 1)], ed_calls = []\<rparr> = Inr e'
          \<and> ed_calls e' =
               [CALL_replace 0 0 1 2 ''a\<newline>x\<newline>c'',
                CALL_set_line_state 0 LINESTATE_SAVED,
                CALL_set_line_state 1 LINESTATE_CHANGED,
                CALL_set_line_state 2 LINESTATE_ADDED,
                CALL_set_caret 1 1, CALL_action_update]
          \<and> get_text_all e' = ''a\<newline>x\<newline>c'')"
proof -
  let ?E = "\<lparr>ed_lines = [(''a'', LINESTATE_SAVED), (''b'', LINESTATE_NORMAL),
                          (''c'', LINESTATE_ADDED)],
              ed_carets = [(1, 1, - 1, - 1)], ed_calls = []\<rparr>"
  have h1: "''a\<newline>b\<newline>c'' \<noteq> ''a\<newline>x\<newline>c''" by simp
  have h2: "length (splitlines ''a\<newline>b\<newline>c'') = length (splitlines ''a\<newline>x\<newline>c'')"
    by code_simp
  have h3: "get_line_states ?E \<noteq> []" by (simp add: get_line_states_def)
  have h4: "length (splitlines ''a\<newline>b\<newline>c'') \<le> length (get_line_states ?E)"
    by code_simp
  from equal_count_path_writes [OF h1 h2 h3 h4, of "[]"] obtain e' where
    e': "apply_changes_preserving_states [] ''a\<newline>b\<newline>c'' ''a\<newline>x\<newline>c'' ?E = Inr e'"
        "get_text_all e' = ''a\<newline>x\<newline>c''" by blast
  have r: "apply_changes_preserving_states [] ''a\<newline>b\<newline>c'' ''a\<newline>x\<newline>c'' ?E =
      Inr \<lparr>ed_lines = [(''a'', LINESTATE_SAVED), (''x'', LINESTATE_CHANGED),
                         (''c'', LINESTATE_ADDED)],
             ed_carets = [(1, 1, - 1, - 1)],
             ed_calls = [CALL_replace 0 0 1 2 ''a\<newline>x\<newline>c'',
                CALL_set_line_state 0 LINESTATE_SAVED,
                CALL_set_line_state 1 LINESTATE_CHANGED,
                CALL_set_line_state 2 LINESTATE_ADDED,
                CALL_set_caret 1 1, CALL_action_update]\<rparr>"
    by code_simp
  from r e' have "ed_calls e' = [CALL_replace 0 0 1 2 ''a\<newline>x\<newline>c'',
                CALL_set_line_state 0 LINESTATE_SAVED,
                CALL_set_line_state 1 LINESTATE_CHANGED,
                CALL_set_line_state 2 LINESTATE_ADDED,
                CALL_set_caret 1 1, CALL_action_update]" by auto
  with e' h1 h2 h3 show ?thesis by blast
qed

text \<open>
  C4 as worded fails on a document whose single line holds a form feed: Python counts
  two lines in each text, the host one line and one state, the guard is false, and no
  line state is written although line 1 differs.
\<close>

theorem equal_count_path_short_states_counterexample:
  "apply_changes_preserving_states []
     [CHR ''a'', CHR 0x0C, CHR ''b''] [CHR ''a'', CHR 0x0C, CHR ''c'']
     \<lparr>ed_lines = [([CHR ''a'', CHR 0x0C, CHR ''b''], LINESTATE_SAVED)],
      ed_carets = [(0, 0, - 1, - 1)], ed_calls = []\<rparr>
   = Inr \<lparr>ed_lines = [([CHR ''a'', CHR 0x0C, CHR ''c''], LINESTATE_CHANGED)],
           ed_carets = [(0, 0, - 1, - 1)],
           ed_calls = [CALL_replace 0 0 3 0 [CHR ''a'', CHR 0x0C, CHR ''c''],
                       CALL_set_caret 0 0, CALL_action_update]\<rparr>
   \<and> splitlines [CHR ''a'', CHR 0x0C, CHR ''b''] = [''a'', ''b'']
   \<and> splitlines [CHR ''a'', CHR 0x0C, CHR ''c''] = [''a'', ''c'']"
  by code_simp

text \<open>
  C9. On the equal-line-count path, when the line states read before the edit are empty
  or fewer than the old lines, the calls issued are the whole-document replace, the caret
  write (when a caret was read) and the update: no line state is written, and the
  document still receives the new text.
\<close>

theorem equal_count_path_guard_skips_states:
  assumes "old_text \<noteq> new_text"
      and "length (splitlines old_text) = length (splitlines new_text)"
      and "get_line_states e = [] \<or> length (get_line_states e) < length (splitlines old_text)"
  shows "\<exists>e' new_calls. apply_changes_preserving_states opcodes old_text new_text e = Inr e'
           \<and> ed_calls e' = ed_calls e @ new_calls
           \<and> new_calls =
                CALL_replace 0 0 (get_line_len e (get_line_count e - 1)) (get_line_count e - 1)
                  new_text
                # caret_calls (get_carets e) e' @ [CALL_action_update]
           \<and> filter state_call new_calls = []
           \<and> get_text_all e' = (if ed_lines e = [] then [] else new_text)"
proof -
  let ?ol = "splitlines old_text" and ?nl = "splitlines new_text"
  let ?e' = "fast_path ?ol ?nl new_text e"
  have r: "apply_changes_preserving_states opcodes old_text new_text e = Inr ?e'"
    using assms(1,2) by (simp add: reconcile_unfold)
  have g: "\<not> (get_line_states e \<noteq> [] \<and> length ?ol \<le> length (get_line_states e))"
    using assms(3) by auto
  have t: "ed_lines e \<noteq> [] \<Longrightarrow> get_text_all ?e' = new_text"
    using fast_path_lines [of e ?ol ?nl new_text] by (simp add: get_text_all_def)
  have t0: "ed_lines e = [] \<Longrightarrow> get_text_all ?e' = []"
    using g by (simp add: fast_path_def Let_def get_text_all_def get_line_states_def
                  lines_replace_def lines_insert_def lines_delete_def)
  show ?thesis
    apply (rule exI [of _ ?e'])
    apply (rule exI [of _ "drop (length (ed_calls e)) (ed_calls ?e')"])
    using r t t0 g fast_path_calls [of ?ol ?nl new_text e] by auto
qed

theorem equal_count_path_guard_skips_states_witness:
  "[CHR ''a'', CHR 0x0B, CHR ''b''] \<noteq> [CHR ''a'', CHR 0x0B, CHR ''c'']
   \<and> length (splitlines [CHR ''a'', CHR 0x0B, CHR ''b''])
       = length (splitlines [CHR ''a'', CHR 0x0B, CHR ''c''])
   \<and> length (get_line_states
                \<lparr>ed_lines = [([CHR ''a'', CHR 0x0B, CHR ''b''], LINESTATE_NORMAL)],
                 ed_carets = [(2, 0, - 1, - 1)], ed_calls = []\<rparr>)
       < length (splitlines [CHR ''a'', CHR 0x0B, CHR ''b''])
   \<and> (\<exists>e'. apply_changes_preserving_states []
              [CHR ''a'', CHR 0x0B, CHR ''b''] [CHR ''a'', CHR 0x0B, CHR ''c'']
              \<lparr>ed_lines = [([CHR ''a'', CHR 0x0B, CHR ''b''], LINESTATE_NORMAL)],
               ed_carets = [(2, 0, - 1, - 1)], ed_calls = []\<rparr> = Inr e'
          \<and> ed_calls e' = [CALL_replace 0 0 3 0 [CHR ''a'', CHR 0x0B, CHR ''c''],
                           CALL_set_caret 2 0, CALL_action_update]
          \<and> filter state_call (ed_calls e') = []
          \<and> get_text_all e' = [CHR ''a'', CHR 0x0B, CHR ''c''])"
proof -
  let ?O = "[CHR ''a'', CHR 0x0B, CHR ''b'']" and ?N = "[CHR ''a'', CHR 0x0B, CHR ''c'']"
  let ?E = "\<lparr>ed_lines = [([CHR ''a'', CHR 0x0B, CHR ''b''], LINESTATE_NORMAL)],
              ed_carets = [(2, 0, - 1, - 1)], ed_calls = []\<rparr>"
  have h1: "?O \<noteq> ?N" by simp
  have h2: "length (splitlines ?O) = length (splitlines ?N)" by code_simp
  have h3: "length (get_line_states ?E) < length (splitlines ?O)" by code_simp
  then have h3': "get_line_states ?E = [] \<or> length (get_line_states ?E) < length (splitlines ?O)"
    by (rule disjI2)
  from equal_count_path_guard_skips_states [OF h1 h2 h3', of "[]"] obtain e' new_calls where
    e': "apply_changes_preserving_states [] ?O ?N ?E = Inr e'"
        "ed_calls e' = ed_calls ?E @ new_calls" "filter state_call new_calls = []"
        "get_text_all e' = (if ed_lines ?E = [] then [] else ?N)" by blast
  have r: "apply_changes_preserving_states [] ?O ?N ?E =
      Inr \<lparr>ed_lines = [(?N, LINESTATE_CHANGED)], ed_carets = [(2, 0, - 1, - 1)],
             ed_calls = [CALL_replace 0 0 3 0 ?N, CALL_set_caret 2 0, CALL_action_update]\<rparr>"
    by code_simp
  from r e'(1) have c: "ed_calls e' = [CALL_replace 0 0 3 0 ?N, CALL_set_caret 2 0,
                                        CALL_action_update]" by auto
  have f: "filter state_call (ed_calls e') = []" using e'(2,3) by simp
  have t: "get_text_all e' = ?N" using e'(4) by simp
  show ?thesis using h1 h2 h3 e'(1) c f t by blast
qed

section \<open>Line states\<close>




section \<open>The caret\<close>

text \<open>
  C7. On both paths, for a document with at least one line and a first caret at
  non-negative coordinates, the reconciler returns, and the caret it leaves has the
  saved row, or the last row when the saved row is at or past the new line count, and
  the saved column, or the length of that row's line when the saved column is past it;
  that caret is a position of the new document.
\<close>

theorem caret_restored_clamped:
  assumes "old_text \<noteq> new_text" "ed_lines e \<noteq> []"
      and "get_carets e = (x, y, x2, y2) # others" "0 \<le> x" "0 \<le> y"
      and "length (splitlines old_text) \<noteq> length (splitlines new_text) \<Longrightarrow>
             valid_opcodes (splitlines old_text) (splitlines new_text) opcodes"
  shows "\<exists>e' cx cy. apply_changes_preserving_states opcodes old_text new_text e = Inr e'
           \<and> ed_carets e' = [(cx, cy, - 1, - 1)]
           \<and> cy = (if get_line_count e' \<le> y then get_line_count e' - 1 else y)
           \<and> cx = (if get_line_len e' cy < x then get_line_len e' cy else x)
           \<and> 0 \<le> cy \<and> cy < get_line_count e' \<and> 0 \<le> cx \<and> cx \<le> get_line_len e' cy"
proof -
  from reconcile_caret [OF assms(1,2,6)] obtain e' where
    e': "apply_changes_preserving_states opcodes old_text new_text e = Inr e'"
        "ed_lines e' \<noteq> []"
        "ed_carets e' = [(fst (clamp_caret e' x y), snd (clamp_caret e' x y), - 1, - 1)]"
    using assms(3) by auto
  have y: "snd (clamp_caret e' x y) = (if get_line_count e' \<le> y then get_line_count e' - 1 else y)"
    by (simp add: clamp_caret_def Let_def)
  have x: "fst (clamp_caret e' x y) =
             (if get_line_len e' (snd (clamp_caret e' x y)) < x
              then get_line_len e' (snd (clamp_caret e' x y)) else x)"
    by (simp add: clamp_caret_def Let_def)
  show ?thesis
    apply (rule exI [of _ e'])
    apply (rule exI [of _ "fst (clamp_caret e' x y)"])
    apply (rule exI [of _ "snd (clamp_caret e' x y)"])
    using e' x y clamp_caret_valid [OF e'(2) assms(4,5)] by simp
qed

theorem caret_restored_clamped_witness:
  "''a\<newline>b\<newline>c\<newline>d\<newline>e\<newline>f\<newline>g\<newline>h\<newline>i\<newline>j'' \<noteq> ''h\<newline>i\<newline>j''
   \<and> length (splitlines ''a\<newline>b\<newline>c\<newline>d\<newline>e\<newline>f\<newline>g\<newline>h\<newline>i\<newline>j'') \<noteq> length (splitlines ''h\<newline>i\<newline>j'')
   \<and> valid_opcodes (splitlines ''a\<newline>b\<newline>c\<newline>d\<newline>e\<newline>f\<newline>g\<newline>h\<newline>i\<newline>j'') (splitlines ''h\<newline>i\<newline>j'')
        [(Tag_delete, 0, 7, 0, 0), (Tag_equal, 7, 10, 0, 3)]
   \<and> (\<exists>e'. apply_changes_preserving_states [(Tag_delete, 0, 7, 0, 0), (Tag_equal, 7, 10, 0, 3)]
              ''a\<newline>b\<newline>c\<newline>d\<newline>e\<newline>f\<newline>g\<newline>h\<newline>i\<newline>j'' ''h\<newline>i\<newline>j''
              \<lparr>ed_lines = [(''a'', LINESTATE_NORMAL), (''b'', LINESTATE_NORMAL),
                           (''c'', LINESTATE_NORMAL), (''d'', LINESTATE_NORMAL),
                           (''e'', LINESTATE_NORMAL), (''f'', LINESTATE_NORMAL),
                           (''g'', LINESTATE_NORMAL), (''h'', LINESTATE_NORMAL),
                           (''i'', LINESTATE_NORMAL), (''j'', LINESTATE_NORMAL)],
               ed_carets = [(4, 5, - 1, - 1), (0, 7, 1, 7)], ed_calls = []\<rparr> = Inr e'
          \<and> get_line_count e' = 3 \<and> ed_carets e' = [(1, 2, - 1, - 1)])"
proof -
  let ?O = "''a\<newline>b\<newline>c\<newline>d\<newline>e\<newline>f\<newline>g\<newline>h\<newline>i\<newline>j''" and ?N = "''h\<newline>i\<newline>j''"
  let ?ops = "[(Tag_delete, 0, 7, 0, 0), (Tag_equal, 7, 10, 0, 3)] :: opcode list"
  let ?E = "\<lparr>ed_lines = [(''a'', LINESTATE_NORMAL), (''b'', LINESTATE_NORMAL),
                           (''c'', LINESTATE_NORMAL), (''d'', LINESTATE_NORMAL),
                           (''e'', LINESTATE_NORMAL), (''f'', LINESTATE_NORMAL),
                           (''g'', LINESTATE_NORMAL), (''h'', LINESTATE_NORMAL),
                           (''i'', LINESTATE_NORMAL), (''j'', LINESTATE_NORMAL)],
               ed_carets = [(4, 5, - 1, - 1), (0, 7, 1, 7)], ed_calls = []\<rparr>"
  have h1: "?O \<noteq> ?N" by simp
  have h2: "ed_lines ?E \<noteq> []" by simp
  have h3: "get_carets ?E = (4, 5, - 1, - 1) # [(0, 7, 1, 7)]" by (simp add: get_carets_def)
  have h4: "length (splitlines ?O) \<noteq> length (splitlines ?N)" by code_simp
  have h5: "valid_opcodes (splitlines ?O) (splitlines ?N) ?ops" by code_simp
  from caret_restored_clamped [OF h1 h2 h3 _ _ h5] obtain e' cx cy where
    e': "apply_changes_preserving_states ?ops ?O ?N ?E = Inr e'"
        "ed_carets e' = [(cx, cy, - 1, - 1)]"
        "cy = (if get_line_count e' \<le> 5 then get_line_count e' - 1 else 5)"
        "cx = (if get_line_len e' cy < 4 then get_line_len e' cy else 4)"
    by auto
  have r: "apply_changes_preserving_states ?ops ?O ?N ?E =
      Inr \<lparr>ed_lines = [(''h'', LINESTATE_NORMAL), (''i'', LINESTATE_NORMAL),
                         (''j'', LINESTATE_NORMAL)],
             ed_carets = [(1, 2, - 1, - 1)],
             ed_calls = [CALL_delete 0 0 0 1, CALL_delete 0 0 0 1, CALL_delete 0 0 0 1,
                         CALL_delete 0 0 0 1, CALL_delete 0 0 0 1, CALL_delete 0 0 0 1,
                         CALL_delete 0 0 0 1, CALL_set_caret 1 2, CALL_action_update]\<rparr>"
    by code_simp
  from r e'(1) have l: "ed_lines e' = [(''h'', LINESTATE_NORMAL), (''i'', LINESTATE_NORMAL),
                                        (''j'', LINESTATE_NORMAL)]" by auto
  have n: "get_line_count e' = 3" by (simp add: get_line_count_def l)
  then have cy: "cy = 2" using e'(3) by simp
  have "get_line_len e' 2 = 1" by (simp add: get_line_len_def l)
  then have cx: "cx = 1" using e'(4) cy by simp
  show ?thesis using h1 h4 h5 e'(1,2) n cx cy by blast
qed



section \<open>The rewrite of the last line on the general path\<close>

text \<open>
  C6, amended. On the general path, once the opcodes have been applied, if the new text
  ends with LF and the text of the buffer does not, the reconciler issues one replace
  call over the whole last line with that line followed by LF; the final text is the
  buffer's text followed by LF, so it ends with LF as the new text does. If the new text
  does not end with LF, whatever its last character, no rewrite is issued: the caret
  write and the update are the only calls after the loop, and the final text is the text
  that the loop left.
\<close>

theorem trailing_newline_forced:
  assumes "old_text \<noteq> new_text"
      and "length (splitlines old_text) \<noteq> length (splitlines new_text)"
      and "ed_lines e \<noteq> []"
      and "apply_opcodes (splitlines new_text) opcodes 0 e = Inr e1"
  shows "(endswith_lf new_text \<longrightarrow> \<not> endswith_lf (get_text_all e1) \<longrightarrow>
           (\<exists>e'. apply_changes_preserving_states opcodes old_text new_text e = Inr e'
              \<and> ed_calls e' = ed_calls e1
                  @ CALL_replace 0 (get_line_count e1 - 1)
                      (get_line_len e1 (get_line_count e1 - 1))
                      (get_line_count e1 - 1) (fst (last (ed_lines e1)) @ [LF])
                  # caret_calls (get_carets e) e' @ [CALL_action_update]
              \<and> get_text_all e' = get_text_all e1 @ [LF]
              \<and> endswith_lf (get_text_all e')))
       \<and> (\<not> endswith_lf new_text \<longrightarrow>
           (\<exists>e'. apply_changes_preserving_states opcodes old_text new_text e = Inr e'
              \<and> ed_calls e' = ed_calls e1 @ caret_calls (get_carets e) e' @ [CALL_action_update]
              \<and> get_text_all e' = get_text_all e1))"
proof (intro conjI impI)
  assume h: "endswith_lf new_text" "\<not> endswith_lf (get_text_all e1)"
  from slow_path_steps [OF assms(4,3), of new_text] h(1) obtain e2 where
    e2: "slow_path opcodes (splitlines new_text) new_text e
           = Inr (ed_action_update (restore_caret (get_carets e) e2))"
        "ed_calls e2 = ed_calls e1
           @ [CALL_replace 0 (get_line_count e1 - 1) (get_line_len e1 (get_line_count e1 - 1))
                (get_line_count e1 - 1) (fst (last (ed_lines e1)) @ [LF])]"
        "get_text_all e2 = get_text_all e1 @ [LF]" by auto
  let ?e' = "ed_action_update (restore_caret (get_carets e) e2)"
  have r: "apply_changes_preserving_states opcodes old_text new_text e = Inr ?e'"
    using assms(1,2) e2(1) by (simp add: reconcile_unfold)
  have cc: "caret_calls (get_carets e) ?e' = caret_calls (get_carets e) e2"
    by (rule caret_calls_cong) simp
  have t: "get_text_all ?e' = get_text_all e2" by (simp add: get_text_all_def)
  show "\<exists>e'. apply_changes_preserving_states opcodes old_text new_text e = Inr e'
              \<and> ed_calls e' = ed_calls e1
                  @ CALL_replace 0 (get_line_count e1 - 1)
                      (get_line_len e1 (get_line_count e1 - 1))
                      (get_line_count e1 - 1) (fst (last (ed_lines e1)) @ [LF])
                  # caret_calls (get_carets e) e' @ [CALL_action_update]
              \<and> get_text_all e' = get_text_all e1 @ [LF]
              \<and> endswith_lf (get_text_all e')"
    apply (rule exI [of _ ?e'])
    unfolding cc t using r e2 by (simp add: restore_caret_calls endswith_lf_def)
next
  assume h: "\<not> endswith_lf new_text"
  from slow_path_steps [OF assms(4,3), of new_text] h obtain e2 where
    e2: "slow_path opcodes (splitlines new_text) new_text e
           = Inr (ed_action_update (restore_caret (get_carets e) e2))"
        "ed_calls e2 = ed_calls e1"
        "get_text_all e2 = get_text_all e1" by auto
  let ?e' = "ed_action_update (restore_caret (get_carets e) e2)"
  have r: "apply_changes_preserving_states opcodes old_text new_text e = Inr ?e'"
    using assms(1,2) e2(1) by (simp add: reconcile_unfold)
  have cc: "caret_calls (get_carets e) ?e' = caret_calls (get_carets e) e2"
    by (rule caret_calls_cong) simp
  have t: "get_text_all ?e' = get_text_all e2" by (simp add: get_text_all_def)
  show "\<exists>e'. apply_changes_preserving_states opcodes old_text new_text e = Inr e'
              \<and> ed_calls e' = ed_calls e1 @ caret_calls (get_carets e) e' @ [CALL_action_update]
              \<and> get_text_all e' = get_text_all e1"
    apply (rule exI [of _ ?e'])
    unfolding cc t using r e2 by (simp add: restore_caret_calls)
qed

theorem trailing_newline_forced_witness:
  "(''a\<newline>b'' \<noteq> ''x\<newline>a\<newline>b\<newline>''
    \<and> length (splitlines ''a\<newline>b'') \<noteq> length (splitlines ''x\<newline>a\<newline>b\<newline>'')
    \<and> apply_opcodes (splitlines ''x\<newline>a\<newline>b\<newline>'')
         [(Tag_insert, 0, 0, 0, 1), (Tag_equal, 0, 2, 1, 3)] 0
         \<lparr>ed_lines = [(''a'', LINESTATE_NORMAL), (''b'', LINESTATE_NORMAL)],
          ed_carets = [(0, 0, - 1, - 1)], ed_calls = []\<rparr>
        = Inr \<lparr>ed_lines = [(''x'', LINESTATE_CHANGED), (''a'', LINESTATE_NORMAL),
                            (''b'', LINESTATE_NORMAL)],
                ed_carets = [(0, 0, - 1, - 1)], ed_calls = [CALL_insert 0 0 ''x\<newline>'']\<rparr>
    \<and> endswith_lf ''x\<newline>a\<newline>b\<newline>''
    \<and> (\<exists>e'. apply_changes_preserving_states [(Tag_insert, 0, 0, 0, 1), (Tag_equal, 0, 2, 1, 3)]
               ''a\<newline>b'' ''x\<newline>a\<newline>b\<newline>''
               \<lparr>ed_lines = [(''a'', LINESTATE_NORMAL), (''b'', LINESTATE_NORMAL)],
                ed_carets = [(0, 0, - 1, - 1)], ed_calls = []\<rparr> = Inr e'
           \<and> get_text_all e' = ''x\<newline>a\<newline>b\<newline>''
           \<and> endswith_lf (get_text_all e')))
   \<and> (''a\<newline>b\<newline>c'' \<noteq> ''a\<newline>c''
    \<and> length (splitlines ''a\<newline>b\<newline>c'') \<noteq> length (splitlines ''a\<newline>c'')
    \<and> apply_opcodes (splitlines ''a\<newline>c'')
         [(Tag_equal, 0, 1, 0, 1), (Tag_delete, 1, 2, 1, 1), (Tag_equal, 2, 3, 1, 2)] 0
         \<lparr>ed_lines = [(''a'', LINESTATE_NORMAL), (''b'', LINESTATE_NORMAL),
                      (''c'', LINESTATE_NORMAL)],
          ed_carets = [(0, 0, - 1, - 1)], ed_calls = []\<rparr>
        = Inr \<lparr>ed_lines = [(''a'', LINESTATE_NORMAL), (''c'', LINESTATE_NORMAL)],
                ed_carets = [(0, 0, - 1, - 1)], ed_calls = [CALL_delete 0 1 0 2]\<rparr>
    \<and> \<not> endswith_lf ''a\<newline>c''
    \<and> (\<exists>e'. apply_changes_preserving_states
               [(Tag_equal, 0, 1, 0, 1), (Tag_delete, 1, 2, 1, 1), (Tag_equal, 2, 3, 1, 2)]
               ''a\<newline>b\<newline>c'' ''a\<newline>c''
               \<lparr>ed_lines = [(''a'', LINESTATE_NORMAL), (''b'', LINESTATE_NORMAL),
                            (''c'', LINESTATE_NORMAL)],
                ed_carets = [(0, 0, - 1, - 1)], ed_calls = []\<rparr> = Inr e'
           \<and> ed_calls e' = CALL_delete 0 1 0 2
                 # caret_calls [(0, 0, - 1, - 1)] e' @ [CALL_action_update]
           \<and> get_text_all e' = ''a\<newline>c''))"
proof (rule conjI)
  let ?O = "''a\<newline>b''" and ?N = "''x\<newline>a\<newline>b\<newline>''"
  let ?ops = "[(Tag_insert, 0, 0, 0, 1), (Tag_equal, 0, 2, 1, 3)] :: opcode list"
  let ?E = "\<lparr>ed_lines = [(''a'', LINESTATE_NORMAL), (''b'', LINESTATE_NORMAL)],
              ed_carets = [(0, 0, - 1, - 1)], ed_calls = []\<rparr>"
  let ?E1 = "\<lparr>ed_lines = [(''x'', LINESTATE_CHANGED), (''a'', LINESTATE_NORMAL),
                           (''b'', LINESTATE_NORMAL)],
               ed_carets = [(0, 0, - 1, - 1)], ed_calls = [CALL_insert 0 0 ''x\<newline>'']\<rparr>"
  have h1: "?O \<noteq> ?N" by simp
  have h2: "length (splitlines ?O) \<noteq> length (splitlines ?N)" by code_simp
  have h3: "ed_lines ?E \<noteq> []" by simp
  have h4: "apply_opcodes (splitlines ?N) ?ops 0 ?E = Inr ?E1" by code_simp
  have h5: "endswith_lf ?N" by code_simp
  have h6: "\<not> endswith_lf (get_text_all ?E1)" by code_simp
  have t1: "get_text_all ?E1 @ [LF] = ?N" by code_simp
  from trailing_newline_forced [OF h1 h2 h3 h4, THEN conjunct1, rule_format, OF h5 h6]
  obtain e' where
    e': "apply_changes_preserving_states ?ops ?O ?N ?E = Inr e'"
        "get_text_all e' = get_text_all ?E1 @ [LF]" "endswith_lf (get_text_all e')" by blast
  have "get_text_all e' = ?N" using e'(2) t1 by simp
  then show "?O \<noteq> ?N \<and> length (splitlines ?O) \<noteq> length (splitlines ?N)
    \<and> apply_opcodes (splitlines ?N) ?ops 0 ?E = Inr ?E1
    \<and> endswith_lf ?N
    \<and> (\<exists>e'. apply_changes_preserving_states ?ops ?O ?N ?E = Inr e'
           \<and> get_text_all e' = ?N \<and> endswith_lf (get_text_all e'))"
    using h1 h2 h4 h5 e'(1,3) by - (intro conjI exI [of _ e']; assumption)
next
  let ?O = "''a\<newline>b\<newline>c''" and ?N = "''a\<newline>c''"
  let ?ops = "[(Tag_equal, 0, 1, 0, 1), (Tag_delete, 1, 2, 1, 1), (Tag_equal, 2, 3, 1, 2)]
                :: opcode list"
  let ?E = "\<lparr>ed_lines = [(''a'', LINESTATE_NORMAL), (''b'', LINESTATE_NORMAL),
                          (''c'', LINESTATE_NORMAL)],
              ed_carets = [(0, 0, - 1, - 1)], ed_calls = []\<rparr>"
  let ?E1 = "\<lparr>ed_lines = [(''a'', LINESTATE_NORMAL), (''c'', LINESTATE_NORMAL)],
               ed_carets = [(0, 0, - 1, - 1)], ed_calls = [CALL_delete 0 1 0 2]\<rparr>"
  have h1: "?O \<noteq> ?N" by simp
  have h2: "length (splitlines ?O) \<noteq> length (splitlines ?N)" by code_simp
  have h3: "ed_lines ?E \<noteq> []" by simp
  have h4: "apply_opcodes (splitlines ?N) ?ops 0 ?E = Inr ?E1" by code_simp
  have h5: "\<not> endswith_lf ?N" by code_simp
  have t1: "get_text_all ?E1 = ?N" by code_simp
  from trailing_newline_forced [OF h1 h2 h3 h4, THEN conjunct2, rule_format, OF h5]
  obtain e' where
    e': "apply_changes_preserving_states ?ops ?O ?N ?E = Inr e'"
        "ed_calls e' = ed_calls ?E1 @ caret_calls (get_carets ?E) e' @ [CALL_action_update]"
        "get_text_all e' = get_text_all ?E1" by blast
  have c: "ed_calls e' = CALL_delete 0 1 0 2
             # caret_calls [(0, 0, - 1, - 1)] e' @ [CALL_action_update]"
    using e'(2) by (simp add: get_carets_def)
  have t: "get_text_all e' = ?N" using e'(3) t1 by simp
  show "?O \<noteq> ?N \<and> length (splitlines ?O) \<noteq> length (splitlines ?N)
    \<and> apply_opcodes (splitlines ?N) ?ops 0 ?E = Inr ?E1
    \<and> \<not> endswith_lf ?N
    \<and> (\<exists>e'. apply_changes_preserving_states ?ops ?O ?N ?E = Inr e'
           \<and> ed_calls e' = CALL_delete 0 1 0 2
                 # caret_calls [(0, 0, - 1, - 1)] e' @ [CALL_action_update]
           \<and> get_text_all e' = ?N)"
    using h1 h2 h4 h5 e'(1) c t by - (intro conjI exI [of _ e']; assumption)
qed

text \<open>
  C6 as worded fails for a new text that ends with a line terminator other than LF: for
  a buffer holding \<open>x\<close> LF \<open>a\<close> and the new text \<open>a\<close> followed by a form feed, Python
  counts one new line, \<open>a\<close>, the loop deletes row 0, the buffer's last line \<open>a\<close>
  carries no terminator, and no rewrite is issued: the final text is \<open>a\<close>.
\<close>

theorem trailing_form_feed_counterexample:
  "apply_changes_preserving_states [(Tag_delete, 0, 1, 0, 0), (Tag_equal, 1, 2, 0, 1)]
     ''x\<newline>a'' [CHR ''a'', CHR 0x0C]
     \<lparr>ed_lines = [(''x'', LINESTATE_NORMAL), (''a'', LINESTATE_NORMAL)],
      ed_carets = [(0, 0, - 1, - 1)], ed_calls = []\<rparr>
   = Inr \<lparr>ed_lines = [(''a'', LINESTATE_NORMAL)],
           ed_carets = [(0, 0, - 1, - 1)],
           ed_calls = [CALL_delete 0 0 0 1, CALL_set_caret 0 0, CALL_action_update]\<rparr>
   \<and> splitlines [CHR ''a'', CHR 0x0C] = [''a'']
   \<and> valid_opcodes (splitlines ''x\<newline>a'') (splitlines [CHR ''a'', CHR 0x0C])
        [(Tag_delete, 0, 1, 0, 0), (Tag_equal, 1, 2, 0, 1)]
   \<and> is_linebreak (last [CHR ''a'', CHR 0x0C])
   \<and> get_text_all \<lparr>ed_lines = [(''a'', LINESTATE_NORMAL)],
                    ed_carets = [(0, 0, - 1, - 1)],
                    ed_calls = [CALL_delete 0 0 0 1, CALL_set_caret 0 0,
                                CALL_action_update]\<rparr> = ''a''"
  by code_simp

section \<open>The fix and format commands\<close>


section \<open>Final content on the general path\<close>

text \<open>
  C1. The claim is that the document ends as the new text on both paths. On the general
  path the code misses it: for a buffer holding \<open>import os\<close> LF \<open>x = 1\<close> LF and the new
  text \<open>x = 1\<close> LF, the opcode loop leaves exactly the new text, and the rewrite of the
  last line, made whenever the new text ends with LF, then adds a second LF.
\<close>

theorem general_path_doubles_final_newline:
  "apply_changes_preserving_states [(Tag_delete, 0, 1, 0, 0), (Tag_equal, 1, 2, 0, 1)]
     ''import os\<newline>x = 1\<newline>'' ''x = 1\<newline>''
     \<lparr>ed_lines = [(''import os'', LINESTATE_NORMAL), (''x = 1'', LINESTATE_NORMAL),
                  ([], LINESTATE_NORMAL)],
      ed_carets = [(0, 0, - 1, - 1)], ed_calls = []\<rparr>
   = Inr \<lparr>ed_lines = [(''x = 1'', LINESTATE_NORMAL), ([], LINESTATE_CHANGED),
                       ([], LINESTATE_NORMAL)],
           ed_carets = [(0, 0, - 1, - 1)],
           ed_calls = [CALL_delete 0 0 0 1, CALL_replace 0 1 0 1 ''\<newline>'',
                       CALL_set_caret 0 0, CALL_action_update]\<rparr>
   \<and> get_text_all \<lparr>ed_lines = [(''x = 1'', LINESTATE_NORMAL), ([], LINESTATE_CHANGED),
                                ([], LINESTATE_NORMAL)],
                    ed_carets = [(0, 0, - 1, - 1)],
                    ed_calls = [CALL_delete 0 0 0 1, CALL_replace 0 1 0 1 ''\<newline>'',
                                CALL_set_caret 0 0, CALL_action_update]\<rparr>
       = ''x = 1\<newline>\<newline>''"
  by code_simp

text \<open>
  C3. The claim is that, with the running offset, every multi-hunk edit script leaves the
  buffer as the target lines. The rows are translated as claimed, but for a buffer
  holding \<open>a\<close> LF \<open>b\<close> without a final LF and the new text \<open>x\<close> LF \<open>a\<close> LF \<open>b\<close> LF \<open>y\<close> LF
  the second insert is issued at row 3 of a three-line buffer; the host appends there,
  to the end of the last line, and the buffer ends as \<open>x\<close>, \<open>a\<close>, \<open>by\<close> and two empty
  lines.
\<close>

theorem general_path_insert_after_last_line:
  "apply_changes_preserving_states
     [(Tag_insert, 0, 0, 0, 1), (Tag_equal, 0, 2, 1, 3), (Tag_insert, 2, 2, 3, 4)]
     ''a\<newline>b'' ''x\<newline>a\<newline>b\<newline>y\<newline>''
     \<lparr>ed_lines = [(''a'', LINESTATE_NORMAL), (''b'', LINESTATE_NORMAL)],
      ed_carets = [(0, 0, - 1, - 1)], ed_calls = []\<rparr>
   = Inr \<lparr>ed_lines = [(''x'', LINESTATE_CHANGED), (''a'', LINESTATE_NORMAL),
                       (''by'', LINESTATE_CHANGED), ([], LINESTATE_CHANGED),
                       ([], LINESTATE_CHANGED)],
           ed_carets = [(0, 0, - 1, - 1)],
           ed_calls = [CALL_insert 0 0 ''x\<newline>'', CALL_insert 0 3 ''y\<newline>'',
                       CALL_replace 0 3 0 3 ''\<newline>'', CALL_set_caret 0 0,
                       CALL_action_update]\<rparr>
   \<and> get_text_all \<lparr>ed_lines = [(''x'', LINESTATE_CHANGED), (''a'', LINESTATE_NORMAL),
                                (''by'', LINESTATE_CHANGED), ([], LINESTATE_CHANGED),
                                ([], LINESTATE_CHANGED)],
                    ed_carets = [(0, 0, - 1, - 1)],
                    ed_calls = [CALL_insert 0 0 ''x\<newline>'', CALL_insert 0 3 ''y\<newline>'',
                                CALL_replace 0 3 0 3 ''\<newline>'', CALL_set_caret 0 0,
                                CALL_action_update]\<rparr>
       = ''x\<newline>a\<newline>by\<newline>\<newline>''"
  by code_simp

end
